theory Spec2Isabelle
  imports Complex_Main "HOL-Library.Word"
begin

unbundle bit_operations_syntax

section \<open>JavaScript numbers\<close>

text \<open>
  A JavaScript \<open>number\<close> is an IEEE-754 double. A finite double is modelled by the real
  number it denotes; the two infinities and NaN are values of their own. Sums, products and
  quotients of finite numbers are taken exactly (their rounding is not modelled, and signed
  zeros are not distinguished), except where the rounding decides what the program does next:
  the decrement of the loop counter in \<open>Chromosome.mutate\<close>, and the products with
  \<open>Math.random()\<close> that \<open>Math.floor\<close> turns into a gene, a gene index or a bit index.
\<close>

datatype number = Num real | PosInf | NegInf | NaN

text \<open>
  The rounding of a real number to a double: to the nearest multiple of the unit in the last
  place of its binade (53 significant bits), a tie going to the even multiple. The exponent
  range is not modelled: the products that are rounded here are below \<open>2^32\<close>, and one below the
  normal range is below 1 and floored to 0 whichever way it is rounded.
\<close>

definition round_even :: "real \<Rightarrow> int" where
  "round_even y =
     (if y - of_int \<lfloor>y\<rfloor> < 1 / 2 then \<lfloor>y\<rfloor>
      else if 1 / 2 < y - of_int \<lfloor>y\<rfloor> then \<lfloor>y\<rfloor> + 1
      else if even \<lfloor>y\<rfloor> then \<lfloor>y\<rfloor> else \<lfloor>y\<rfloor> + 1)"

definition double :: "real \<Rightarrow> real" where
  "double x =
     (if x = 0 then 0
      else (let ulp = 2 powr (of_int \<lfloor>log 2 \<bar>x\<bar>\<rfloor> - 52)
            in ulp * of_int (round_even (x / ulp))))"

text \<open>\<open>a + b\<close>\<close>

fun js_add :: "number \<Rightarrow> number \<Rightarrow> number" where
  "js_add (Num a) (Num b) = Num (a + b)"
| "js_add NaN _ = NaN"
| "js_add _ NaN = NaN"
| "js_add PosInf NegInf = NaN"
| "js_add NegInf PosInf = NaN"
| "js_add PosInf _ = PosInf"
| "js_add NegInf _ = NegInf"
| "js_add (Num a) b = b"

text \<open>\<open>a - b\<close>\<close>

fun js_sub :: "number \<Rightarrow> number \<Rightarrow> number" where
  "js_sub (Num a) (Num b) = Num (a - b)"
| "js_sub NaN _ = NaN"
| "js_sub _ NaN = NaN"
| "js_sub PosInf PosInf = NaN"
| "js_sub NegInf NegInf = NaN"
| "js_sub PosInf _ = PosInf"
| "js_sub NegInf _ = NegInf"
| "js_sub (Num a) PosInf = NegInf"
| "js_sub (Num a) NegInf = PosInf"

text \<open>\<open>a / b\<close>; every divisor in the program is a non-negative count, so a zero divisor is \<open>+0\<close>.\<close>

fun js_div :: "number \<Rightarrow> number \<Rightarrow> number" where
  "js_div (Num a) (Num b) =
     (if b \<noteq> 0 then Num (a / b) else if a = 0 then NaN else if 0 < a then PosInf else NegInf)"
| "js_div NaN _ = NaN"
| "js_div _ NaN = NaN"
| "js_div (Num a) _ = Num 0"
| "js_div PosInf (Num b) = (if 0 \<le> b then PosInf else NegInf)"
| "js_div NegInf (Num b) = (if 0 \<le> b then NegInf else PosInf)"
| "js_div _ _ = NaN"

text \<open>\<open>Math.floor(a)\<close>\<close>

fun js_floor :: "number \<Rightarrow> number" where
  "js_floor (Num a) = Num (of_int \<lfloor>a\<rfloor>)"
| "js_floor x = x"

text \<open>\<open>a >= b\<close>, \<open>a > b\<close> and \<open>a < b\<close>: every comparison with NaN is false.\<close>

fun js_ge :: "number \<Rightarrow> number \<Rightarrow> bool" where
  "js_ge (Num a) (Num b) = (b \<le> a)"
| "js_ge NaN _ = False"
| "js_ge _ NaN = False"
| "js_ge PosInf _ = True"
| "js_ge _ NegInf = True"
| "js_ge _ _ = False"

fun js_lt :: "number \<Rightarrow> number \<Rightarrow> bool" where
  "js_lt (Num a) (Num b) = (a < b)"
| "js_lt NaN _ = False"
| "js_lt _ NaN = False"
| "js_lt PosInf _ = False"
| "js_lt _ NegInf = False"
| "js_lt _ _ = True"

definition js_gt :: "number \<Rightarrow> number \<Rightarrow> bool" where
  "js_gt a b = js_lt b a"

text \<open>
  \<open>n--\<close> on a counter that holds a whole number. The difference \<open>n - 1\<close> is a double as long as
  \<open>n \<le> 2^53\<close>. Above, doubles are 2 apart up to \<open>2^54\<close> and at least 4 apart beyond, so
  \<open>n - 1\<close> is rounded (to nearest, ties to the even significand): to \<open>n - 2\<close> when
  \<open>n < 2^54\<close> and \<open>n / 2\<close> is odd, and back to \<open>n\<close> otherwise. Infinity stays infinite.
\<close>

fun js_dec :: "number \<Rightarrow> number" where
  "js_dec (Num n) =
     Num (if n \<le> 2 ^ 53 then n - 1
          else if n < 2 ^ 54 \<and> \<not> 4 dvd \<lfloor>n\<rfloor> then n - 2
          else n)"
| "js_dec x = x"

section \<open>The store: typed arrays, Chromosome objects, the random source\<close>

text \<open>
  A gene is an element of a \<open>Uint32Array\<close>. Typed arrays and \<open>Chromosome\<close> objects live in a
  store and are named by references; a \<open>Chromosome\<close> holds the reference of its \<open>genes\<close>
  array. \<open>narrays\<close> and \<open>nchroms\<close> count the objects allocated so far: a reference is live
  when it is below the counter. \<open>draws\<close> counts the calls of \<open>Math.random()\<close>; the values
  they return are the sequence \<open>R 0, R 1, ...\<close> that every operation takes as a parameter.
\<close>

type_synonym gene = "32 word"
type_synonym ref = nat

record heap =
  arrays :: "ref \<Rightarrow> gene list"
  narrays :: nat
  chroms :: "ref \<Rightarrow> ref"
  nchroms :: nat
  draws :: nat

text \<open>\<open>Math.random()\<close>\<close>

definition random :: "(nat \<Rightarrow> real) \<Rightarrow> heap \<Rightarrow> real \<times> heap" where
  "random R s = (R (draws s), s\<lparr>draws := Suc (draws s)\<rparr>)"

text \<open>The contract of \<open>Math.random()\<close>: every value is in \<open>[0, 1)\<close>.\<close>

definition unit_interval :: "(nat \<Rightarrow> real) \<Rightarrow> bool" where
  "unit_interval R = (\<forall>n. 0 \<le> R n \<and> R n < 1)"

text \<open>\<open>new Uint32Array(...)\<close> with the given initial contents.\<close>

definition new_Uint32Array :: "gene list \<Rightarrow> heap \<Rightarrow> ref \<times> heap" where
  "new_Uint32Array g s =
     (narrays s, s\<lparr>arrays := (arrays s)(narrays s := g), narrays := Suc (narrays s)\<rparr>)"

text \<open>
  Reading \<open>arr[i]\<close> where the value is then an operand of a bitwise operator or is stored
  in a typed array: an index out of range reads \<open>undefined\<close>, which either use converts to 0.
  Writing \<open>arr[i] = v\<close>: a write out of range is ignored.
\<close>

definition typed_get :: "gene list \<Rightarrow> int \<Rightarrow> gene" where
  "typed_get g i = (if 0 \<le> i \<and> i < int (length g) then g ! nat i else 0)"

definition typed_set :: "gene list \<Rightarrow> int \<Rightarrow> gene \<Rightarrow> gene list" where
  "typed_set g i v = (if 0 \<le> i \<and> i < int (length g) then g[nat i := v] else g)"

definition array_get :: "heap \<Rightarrow> ref \<Rightarrow> int \<Rightarrow> gene" where
  "array_get s a i = typed_get (arrays s a) i"

definition array_set :: "ref \<Rightarrow> int \<Rightarrow> gene \<Rightarrow> heap \<Rightarrow> heap" where
  "array_set a i v s = s\<lparr>arrays := (arrays s)(a := typed_set (arrays s a) i v)\<rparr>"

text \<open>
  \<open>target.set(source)\<close>: the source's elements overwrite the start of the target. (The
  call raises when the source is longer; the program only calls it with a source that is not.)
\<close>

definition array_set_all :: "ref \<Rightarrow> gene list \<Rightarrow> heap \<Rightarrow> heap" where
  "array_set_all a src s =
     s\<lparr>arrays := (arrays s)(a := src @ drop (length src) (arrays s a))\<rparr>"

text \<open>\<open>for (let i = i0; i < n; i++) body\<close>, for a bound that the body does not change.\<close>

function for_loop :: "nat \<Rightarrow> nat \<Rightarrow> (nat \<Rightarrow> 's \<Rightarrow> 's) \<Rightarrow> 's \<Rightarrow> 's" where
  "for_loop i n body s = (if i < n then for_loop (Suc i) n body (body i s) else s)"
  by pat_completeness auto
termination
  by (relation "measure (\<lambda>(i, n, body, s). n - i)") auto

declare for_loop.simps [simp del]

section \<open>Chromosome\<close>

text \<open>The \<open>genes\<close> of a Chromosome object and its \<open>length\<close> getter.\<close>

definition genes :: "heap \<Rightarrow> ref \<Rightarrow> gene list" where
  "genes s c = arrays s (chroms s c)"

definition Chromosome_length :: "heap \<Rightarrow> ref \<Rightarrow> nat" where
  "Chromosome_length s c = length (genes s c)"

text \<open>
  The constructor: \<open>length\<close> genes, each \<open>Math.floor(Math.random() * 4294967295)\<close>. The length
  is a natural number, as the interface asks (a non-negative integer).
\<close>

definition Chromosome_new :: "(nat \<Rightarrow> real) \<Rightarrow> nat \<Rightarrow> heap \<Rightarrow> ref \<times> heap" where
  "Chromosome_new R len s =
     (let (a, s1) = new_Uint32Array (replicate len 0) s;
          s2 = for_loop 0 len
                 (\<lambda>i t. let (r, t1) = random R t
                         in array_set a (int i) (word_of_int \<lfloor>double (r * 4294967295)\<rfloor>) t1) s1;
          c = nchroms s2
      in (c, s2\<lparr>chroms := (chroms s2)(c := a), nchroms := Suc c\<rparr>))"

text \<open>\<open>copy()\<close>: a new, empty Chromosome whose \<open>genes\<close> become a new array with the same elements.\<close>

definition Chromosome_copy :: "(nat \<Rightarrow> real) \<Rightarrow> ref \<Rightarrow> heap \<Rightarrow> ref \<times> heap" where
  "Chromosome_copy R this s =
     (let (c, s1) = Chromosome_new R 0 s;
          (a, s2) = new_Uint32Array (genes s1 this) s1
      in (c, s2\<lparr>chroms := (chroms s2)(c := a)\<rparr>))"

section \<open>countOnes\<close>

text \<open>
  The inner loop looks at the lowest bit of \<open>n\<close> and shifts \<open>n\<close> right with \<open>>>\<close>, the
  sign-propagating shift of the 32-bit signed value, 32 times.
\<close>

definition count_step :: "nat \<Rightarrow> gene \<times> nat \<Rightarrow> gene \<times> nat" where
  "count_step i = (\<lambda>(n, count).
     (signed_drop_bit 1 n, if n AND 1 = 1 then count + 1 else count))"

definition countOnes :: "gene list \<Rightarrow> nat" where
  "countOnes arr = fold (\<lambda>num count. snd (for_loop 0 32 count_step (num, count))) arr 0"

section \<open>Chromosome.diversityWith\<close>

text \<open>
  The extended copy of the shorter gene array: a new array as long as the longer one, the
  shorter one's genes at its start, and the complement of the longer one's genes beyond.
\<close>

definition extend_shorter :: "ref \<Rightarrow> ref \<Rightarrow> heap \<Rightarrow> ref \<times> heap" where
  "extend_shorter longer shorter s =
     (let (extendedShorter, s1) = new_Uint32Array (replicate (length (arrays s longer)) 0) s;
          s2 = array_set_all extendedShorter (arrays s1 shorter) s1
      in (extendedShorter,
          for_loop (length (arrays s2 shorter)) (length (arrays s2 longer))
            (\<lambda>i t. array_set extendedShorter (int i) (NOT (array_get t longer (int i))) t) s2))"

text \<open>The element-wise XOR of the longer array and the extended shorter one, in a new array.\<close>

definition xor_arrays :: "ref \<Rightarrow> ref \<Rightarrow> heap \<Rightarrow> ref \<times> heap" where
  "xor_arrays longer extendedShorter s =
     (let (xored, s1) = new_Uint32Array (replicate (length (arrays s longer)) 0) s
      in (xored,
          for_loop 0 (length (arrays s1 longer))
            (\<lambda>i t. array_set xored (int i)
                      (array_get t longer (int i) XOR array_get t extendedShorter (int i)) t) s1))"

definition Chromosome_diversityWith :: "ref \<Rightarrow> ref \<Rightarrow> heap \<Rightarrow> number \<times> heap" where
  "Chromosome_diversityWith this other s =
     (let (longer, shorter) =
            (if Chromosome_length s this > Chromosome_length s other
             then (chroms s this, chroms s other) else (chroms s other, chroms s this));
          (extendedShorter, s1) = extend_shorter longer shorter s;
          (xored, s2) = xor_arrays longer extendedShorter s1;
          onesCount = countOnes (arrays s2 xored)
      in (js_div (Num (real onesCount)) (Num (real (length (arrays s2 longer) * 32))), s2))"

section \<open>Chromosome.spawnWith\<close>

text \<open>
  One turn of the crossover loop. \<open>Math.random()\<close> is only called when the position exists in
  the non-dominant parent (the \<open>&&\<close> is evaluated left to right).
\<close>

definition spawn_step :: "(nat \<Rightarrow> real) \<Rightarrow> ref \<Rightarrow> ref \<Rightarrow> nat \<Rightarrow> heap \<Rightarrow> heap" where
  "spawn_step R child nondom i s =
     (if i < Chromosome_length s nondom
      then (let (r, s1) = random R s
            in if r > 0.5
               then array_set (chroms s1 child) (int i) (array_get s1 (chroms s1 nondom) (int i)) s1
               else s1)
      else s)"

text \<open>The choice of the dominant and the non-dominant parent.\<close>

definition dominance :: "heap \<Rightarrow> ref \<Rightarrow> ref \<Rightarrow> ref \<times> ref" where
  "dominance s this other =
     (if Chromosome_length s other > Chromosome_length s this then (other, this) else (this, other))"

definition Chromosome_spawnWith :: "(nat \<Rightarrow> real) \<Rightarrow> ref \<Rightarrow> ref \<Rightarrow> heap \<Rightarrow> ref \<times> heap" where
  "Chromosome_spawnWith R this other s =
     (let (dom, nondom) = dominance s this other;
          (child, s1) = Chromosome_copy R dom s
      in (child, for_loop 0 (Chromosome_length s1 child) (spawn_step R child nondom) s1))"

section \<open>Chromosome.mutate\<close>

text \<open>
  The static defaults \<open>Chromosome.mutation_probability\<close> and
  \<open>Chromosome.addition_probability\<close>, at the values the class gives them.
\<close>

definition mutation_probability :: number where
  "mutation_probability = Num (1 / 100)"

definition addition_probability :: number where
  "addition_probability = Num (1 / 1000)"

text \<open>\<open>arg ?? dflt\<close>\<close>

definition or_default :: "number option \<Rightarrow> number \<Rightarrow> number" where
  "or_default arg dflt = (case arg of None \<Rightarrow> dflt | Some v \<Rightarrow> v)"

text \<open>
  The body of a mutation attempt that fires: a random gene, a random bit, and
  \<open>this.genes[idxGene] = this.genes[idxGene] ^ (1 << idxBit)\<close>. The shift count of \<open><<\<close> is
  taken modulo 32.
\<close>

definition flip_bit :: "(nat \<Rightarrow> real) \<Rightarrow> ref \<Rightarrow> heap \<Rightarrow> heap" where
  "flip_bit R this s =
     (let (r1, s1) = random R s;
          idxGene = \<lfloor>double (r1 * real (length (genes s1 this)))\<rfloor>;
          (r2, s2) = random R s1;
          idxBit = \<lfloor>double (r2 * 32)\<rfloor>;
          a = chroms s2 this
      in array_set a idxGene (array_get s2 a idxGene XOR push_bit (nat (idxBit mod 32)) 1) s2)"

text \<open>One turn of the \<open>while\<close> loop after the decrement of the counter.\<close>

definition mutation_attempt :: "(nat \<Rightarrow> real) \<Rightarrow> ref \<Rightarrow> number \<Rightarrow> heap \<Rightarrow> heap" where
  "mutation_attempt R this mutationProb s =
     (let (r, s1) = random R s
      in if js_lt (Num r) mutationProb then flip_bit R this s1 else s1)"

text \<open>
  \<open>while (numMutations > 0) { numMutations--; ... }\<close>. The counter is a JavaScript number, and
  the loop need not end: not returning is the value \<open>None\<close>.
\<close>

partial_function (option) mutate_loop ::
  "(nat \<Rightarrow> real) \<Rightarrow> ref \<Rightarrow> number \<Rightarrow> number \<Rightarrow> heap \<Rightarrow> heap option" where
  "mutate_loop R this mutationProb numMutations s =
     (if js_gt numMutations (Num 0)
      then mutate_loop R this mutationProb (js_dec numMutations)
             (mutation_attempt R this mutationProb s)
      else Some s)"

text \<open>The addition of a gene: a new array, one longer, replaces \<open>this.genes\<close>.\<close>

definition add_gene :: "(nat \<Rightarrow> real) \<Rightarrow> ref \<Rightarrow> heap \<Rightarrow> heap" where
  "add_gene R this s =
     (let (newGenes, s1) = new_Uint32Array (replicate (length (genes s this) + 1) 0) s;
          s2 = array_set_all newGenes (genes s1 this) s1;
          (r, s3) = random R s2;
          s4 = array_set newGenes (int (length (genes s3 this))) (word_of_int \<lfloor>double (r * 4294967295)\<rfloor>) s3
      in s4\<lparr>chroms := (chroms s4)(this := newGenes)\<rparr>)"

text \<open>
  The number of attempts and the probability of each: one attempt with the given probability
  when that is below 1; otherwise the integer part as the number of attempts and the
  fractional part as the probability of each, or 1 when the fractional part is 0.
\<close>

definition mutation_plan :: "number \<Rightarrow> number \<times> number" where
  "mutation_plan mutationProb =
     (if js_ge mutationProb (Num 1)
      then (let numMutations = js_floor mutationProb;
                mutationProb = js_sub mutationProb numMutations
            in (numMutations, if mutationProb = Num 0 then Num 1 else mutationProb))
      else (Num 1, mutationProb))"

definition Chromosome_mutate ::
  "(nat \<Rightarrow> real) \<Rightarrow> ref \<Rightarrow> number option \<Rightarrow> number option \<Rightarrow> heap \<Rightarrow> (ref \<times> heap) option" where
  "Chromosome_mutate R this mutationProb additionProb s =
     (let mutationProb = or_default mutationProb mutation_probability;
          additionProb = or_default additionProb addition_probability;
          (numMutations, mutationProb) = mutation_plan mutationProb
      in case mutate_loop R this mutationProb numMutations s of
           None \<Rightarrow> None
         | Some s1 \<Rightarrow>
             (let (r, s2) = random R s1
              in Some (this, if js_lt (Num r) additionProb then add_gene R this s2 else s2)))"

section \<open>Genome\<close>

text \<open>
  A Genome holds the references of its chromosomes and its \<open>shape\<close>. An entry of a
  JavaScript array of numbers is \<open>Some\<close> number, or \<open>None\<close> for a hole that an assignment
  beyond the end leaves behind.
\<close>

record Genome =
  chromosomes :: "ref list"
  shape :: "nat option list"

text \<open>\<open>arr[i] = v\<close> on a JavaScript array: an index beyond the end extends the array.\<close>

definition js_array_set :: "'a option list \<Rightarrow> nat \<Rightarrow> 'a \<Rightarrow> 'a option list" where
  "js_array_set xs i v =
     (if i < length xs then xs[i := Some v]
      else xs @ replicate (i - length xs) None @ [Some v])"

text \<open>\<open>lengths.map(len => new Chromosome(len))\<close>\<close>

fun new_chromosomes :: "(nat \<Rightarrow> real) \<Rightarrow> nat list \<Rightarrow> heap \<Rightarrow> ref list \<times> heap" where
  "new_chromosomes R [] s = ([], s)"
| "new_chromosomes R (len # lengths) s =
     (let (c, s1) = Chromosome_new R len s;
          (cs, s2) = new_chromosomes R lengths s1
      in (c # cs, s2))"

definition Genome_new :: "(nat \<Rightarrow> real) \<Rightarrow> nat list \<Rightarrow> heap \<Rightarrow> Genome \<times> heap" where
  "Genome_new R lengths s =
     (let (cs, s1) = new_chromosomes R lengths s
      in (\<lparr>chromosomes = cs, shape = map Some lengths\<rparr>, s1))"

text \<open>\<open>this.chromosomes.map(c => c.copy())\<close>\<close>

fun copy_chromosomes :: "(nat \<Rightarrow> real) \<Rightarrow> ref list \<Rightarrow> heap \<Rightarrow> ref list \<times> heap" where
  "copy_chromosomes R [] s = ([], s)"
| "copy_chromosomes R (c # cs) s =
     (let (c', s1) = Chromosome_copy R c s;
          (cs', s2) = copy_chromosomes R cs s1
      in (c' # cs', s2))"

definition Genome_copy :: "(nat \<Rightarrow> real) \<Rightarrow> Genome \<Rightarrow> heap \<Rightarrow> Genome \<times> heap" where
  "Genome_copy R this s =
     (let (cs, s1) = copy_chromosomes R (chromosomes this) s
      in (\<lparr>chromosomes = cs,
           shape = map (\<lambda>c. Some (Chromosome_length s1 c)) (chromosomes this)\<rparr>, s1))"

definition numGenes :: "heap \<Rightarrow> Genome \<Rightarrow> nat" where
  "numGenes s this = fold (\<lambda>c sum. sum + Chromosome_length s c) (chromosomes this) 0"

definition Genome_diversityWith :: "Genome \<Rightarrow> Genome \<Rightarrow> heap \<Rightarrow> number \<times> heap" where
  "Genome_diversityWith this other s =
     (let (shorter, longer) =
            (if length (chromosomes this) < length (chromosomes other)
             then (chromosomes this, chromosomes other)
             else (chromosomes other, chromosomes this));
          (divTotal, s1) =
            for_loop 0 (length shorter)
              (\<lambda>i (divTotal, t).
                 let (divCurrent, t1) = Chromosome_diversityWith (shorter ! i) (longer ! i) t
                 in (js_add divTotal divCurrent, t1))
              (Num 0, s)
      in (js_div divTotal (Num (real (length shorter))), s1))"

text \<open>
  The loop of \<open>Genome.spawnWith\<close> over the chromosomes of the receiver, with the child's
  chromosomes and the new shape built so far. It returns when every \<open>mutate\<close> does.
\<close>

function Genome_spawn_loop ::
  "(nat \<Rightarrow> real) \<Rightarrow> Genome \<Rightarrow> Genome \<Rightarrow> number \<Rightarrow> number \<Rightarrow> nat \<Rightarrow>
   ref list \<times> nat option list \<times> heap \<Rightarrow> (ref list \<times> nat option list \<times> heap) option" where
  "Genome_spawn_loop R this other mp ap i (cs, newShape, s) =
     (if i < length (chromosomes this)
      then (if i < length (chromosomes other)
            then (let (c, s1) = Chromosome_spawnWith R (chromosomes this ! i) (chromosomes other ! i) s
                  in case Chromosome_mutate R c (Some mp) (Some ap) s1 of
                       None \<Rightarrow> None
                     | Some (childChromosome, s2) \<Rightarrow>
                         Genome_spawn_loop R this other mp ap (Suc i)
                           (cs @ [childChromosome],
                            js_array_set newShape i (Chromosome_length s2 childChromosome), s2))
            else Genome_spawn_loop R this other mp ap (Suc i) (cs, newShape, s))
      else Some (cs, newShape, s))"
  by pat_completeness auto
termination
  by (relation "measure (\<lambda>(R, this, other, mp, ap, i, st). length (chromosomes this) - i)") auto

declare Genome_spawn_loop.simps [simp del]

definition Genome_spawnWith ::
  "(nat \<Rightarrow> real) \<Rightarrow> Genome \<Rightarrow> Genome \<Rightarrow> number option \<Rightarrow> number option \<Rightarrow> heap \<Rightarrow>
   (Genome \<times> heap) option" where
  "Genome_spawnWith R this other mutationProbability additionProbability s =
     (let mutationProbability = or_default mutationProbability mutation_probability;
          additionProbability = or_default additionProbability addition_probability
      in case Genome_spawn_loop R this other mutationProbability additionProbability 0
                ([], shape this, s) of
           None \<Rightarrow> None
         | Some (cs, newShape, s1) \<Rightarrow> Some (\<lparr>chromosomes = cs, shape = newShape\<rparr>, s1))"

section \<open>Notions used to state the properties\<close>

text \<open>
  A reference to a Chromosome is valid in a store when the object and its gene array have
  been allocated there. The program only ever holds valid references.
\<close>

definition valid_chrom :: "heap \<Rightarrow> ref \<Rightarrow> bool" where
  "valid_chrom s c \<longleftrightarrow> c < nchroms s \<and> chroms s c < narrays s"

text \<open>
  A Genome is valid in a store when all its chromosomes are.
\<close>

definition valid_genome :: "heap \<Rightarrow> Genome \<Rightarrow> bool" where
  "valid_genome s g = list_all (valid_chrom s) (chromosomes g)"

text \<open>
  The store \<open>t\<close> preserves the store \<open>s\<close>: every typed array and every Chromosome object of
  \<open>s\<close> is in \<open>t\<close> with the same contents; \<open>t\<close> may hold more objects.
\<close>

definition preserves :: "heap \<Rightarrow> heap \<Rightarrow> bool" where
  "preserves s t \<longleftrightarrow>
     narrays s \<le> narrays t \<and> nchroms s \<le> nchroms t \<and>
     (\<forall>a<narrays s. arrays t a = arrays s a) \<and>
     (\<forall>c<nchroms s. chroms t c = chroms s c)"

text \<open>
  The stores \<open>s\<close> and \<open>t\<close> hold the same objects, with the same contents but for the elements
  (not the length) of the one array \<open>a\<close>.
\<close>

definition same_but :: "ref \<Rightarrow> heap \<Rightarrow> heap \<Rightarrow> bool" where
  "same_but a s t \<longleftrightarrow>
     chroms t = chroms s \<and> narrays t = narrays s \<and> nchroms t = nchroms s \<and>
     (\<forall>b. b \<noteq> a \<longrightarrow> arrays t b = arrays s b) \<and>
     length (arrays t a) = length (arrays s a)"

text \<open>
  What \<open>mutate\<close> may do to the Chromosome \<open>c\<close>: write to its gene array and replace it by a
  new one that is one gene longer; every other object stays as it is.
\<close>

definition mutated :: "ref \<Rightarrow> heap \<Rightarrow> heap \<Rightarrow> bool" where
  "mutated c s t \<longleftrightarrow>
     narrays s \<le> narrays t \<and> nchroms t = nchroms s \<and>
     (\<forall>b<narrays s. b \<noteq> chroms s c \<longrightarrow> arrays t b = arrays s b) \<and>
     (\<forall>c'. c' \<noteq> c \<longrightarrow> chroms t c' = chroms s c') \<and>
     valid_chrom t c \<and>
     (Chromosome_length t c = Chromosome_length s c \<or>
      Chromosome_length t c = Suc (Chromosome_length s c))"

text \<open>
  The shape of a Genome has one entry per chromosome, the chromosome's length.
\<close>

definition well_shaped :: "heap \<Rightarrow> Genome \<Rightarrow> bool" where
  "well_shaped s g \<longleftrightarrow> shape g = map (\<lambda>c. Some (Chromosome_length s c)) (chromosomes g)"

text \<open>
  The population count of a gene: the number of its 32 bits that are set.
\<close>

definition popcount :: "gene \<Rightarrow> nat" where
  "popcount w = length (filter (bit w) [0..<32])"

text \<open>
  The XOR of the longer gene sequence with the shorter one, the latter extended by the
  complement of the former.
\<close>

definition xor_genes :: "gene list \<Rightarrow> gene list \<Rightarrow> gene list" where
  "xor_genes L S = map (\<lambda>i. L ! i XOR (if i < length S then S ! i else NOT (L ! i))) [0..<length L]"

text \<open>
  The gene sequences that \<open>this.diversityWith(other)\<close> takes as the longer and the shorter one.
\<close>

definition longer_shorter :: "heap \<Rightarrow> ref \<Rightarrow> ref \<Rightarrow> gene list \<times> gene list" where
  "longer_shorter s this other =
     (if length (genes s this) > length (genes s other)
      then (genes s this, genes s other) else (genes s other, genes s this))"

text \<open>
  The genes of a child: at position \<open>i\<close> the non-dominant parent's gene when it has one there
  and the draw number \<open>p + i\<close> is above one half, the dominant parent's gene otherwise.
\<close>

definition crossover :: "(nat \<Rightarrow> real) \<Rightarrow> nat \<Rightarrow> gene list \<Rightarrow> gene list \<Rightarrow> gene list" where
  "crossover R p D N =
     map (\<lambda>i. if i < length N \<and> R (p + i) > 1 / 2 then N ! i else D ! i) [0..<length D]"

text \<open>
  The gene that the draw number \<open>k\<close> initialises.
\<close>

definition random_gene :: "(nat \<Rightarrow> real) \<Rightarrow> nat \<Rightarrow> gene" where
  "random_gene R k = word_of_int \<lfloor>double (R k * 4294967295)\<rfloor>"

text \<open>
  The number of mutation attempts that a finite probability \<open>p\<close> gives, and the probability of
  each attempt, as \<open>mutation_plan\<close> computes them.
\<close>

definition attempts :: "real \<Rightarrow> nat" where
  "attempts p = (if 1 \<le> p then nat \<lfloor>p\<rfloor> else 1)"

definition attempt_prob :: "real \<Rightarrow> number" where
  "attempt_prob p = (if 1 \<le> p then (if frac p = 0 then Num 1 else Num (frac p)) else Num p)"

text \<open>
  The operations on gene sequences, without the store: the second component counts the random
  draws made so far. \<open>flip_gene\<close> flips one bit of one gene when the index is in range;
  \<open>attempt_genes\<close> is one mutation attempt, \<open>add_genes\<close> the possible addition of a gene,
  \<open>mutate_genes\<close> a whole \<open>mutate\<close> with a finite probability, and \<open>spawn_genes\<close> the gene
  sequences of the children of a list of pairs of parents: the crossover of each pair, mutated.
\<close>

definition flip_gene :: "gene list \<Rightarrow> int \<Rightarrow> int \<Rightarrow> gene list" where
  "flip_gene g idxGene idxBit =
     (if 0 \<le> idxGene \<and> idxGene < int (length g)
      then g[nat idxGene := g ! nat idxGene XOR push_bit (nat (idxBit mod 32)) 1]
      else g)"

definition attempt_genes :: "(nat \<Rightarrow> real) \<Rightarrow> number \<Rightarrow> gene list \<times> nat \<Rightarrow> gene list \<times> nat" where
  "attempt_genes R q = (\<lambda>(g, p).
     if js_lt (Num (R p)) q
     then (flip_gene g \<lfloor>double (R (p + 1) * real (length g))\<rfloor> \<lfloor>double (R (p + 2) * 32)\<rfloor>, p + 3)
     else (g, p + 1))"

definition add_genes :: "(nat \<Rightarrow> real) \<Rightarrow> number \<Rightarrow> gene list \<times> nat \<Rightarrow> gene list \<times> nat" where
  "add_genes R ap = (\<lambda>(g, p).
     if js_lt (Num (R p)) ap then (g @ [random_gene R (p + 1)], p + 2) else (g, p + 1))"

definition mutate_genes ::
  "(nat \<Rightarrow> real) \<Rightarrow> real \<Rightarrow> number \<Rightarrow> gene list \<times> nat \<Rightarrow> gene list \<times> nat" where
  "mutate_genes R p0 ap gp = add_genes R ap ((attempt_genes R (attempt_prob p0) ^^ attempts p0) gp)"

fun spawn_genes ::
  "(nat \<Rightarrow> real) \<Rightarrow> real \<Rightarrow> number \<Rightarrow> (gene list \<times> gene list) list \<Rightarrow> nat \<Rightarrow> gene list list" where
  "spawn_genes R p0 ap [] p = []"
| "spawn_genes R p0 ap ((a, b) # pairs) p =
     (let (d, n) = (if length b > length a then (b, a) else (a, b));
          (g, p') = mutate_genes R p0 ap (crossover R p d n, p + length n)
      in g # spawn_genes R p0 ap pairs p')"

text \<open>
  The end of \<open>mutate\<close>: one draw, and the addition of a gene when it is below the probability.
\<close>

definition addition_step :: "(nat \<Rightarrow> real) \<Rightarrow> ref \<Rightarrow> number \<Rightarrow> heap \<Rightarrow> heap" where
  "addition_step R this ap s =
     (if js_lt (Num (R (draws s))) ap
      then add_gene R this (s\<lparr>draws := Suc (draws s)\<rparr>)
      else s\<lparr>draws := Suc (draws s)\<rparr>)"

text \<open>
  The body of the loop of \<open>Genome.diversityWith\<close>.
\<close>

definition diversity_step :: "ref list \<Rightarrow> ref list \<Rightarrow> nat \<Rightarrow> number \<times> heap \<Rightarrow> number \<times> heap" where
  "diversity_step shorter longer = (\<lambda>i (divTotal, t).
                 let (divCurrent, t1) = Chromosome_diversityWith (shorter ! i) (longer ! i) t
                 in (js_add divTotal divCurrent, t1))"

text \<open>
  Example stores and genomes. \<open>heap0\<close> is the empty store; \<open>heapN\<close> holds one Chromosome without
  genes (the store after \<open>new Chromosome(0)\<close>) and \<open>heapN2\<close> two of them; \<open>heapE\<close> holds two
  chromosomes of one gene each, \<open>heap2\<close> one of one gene and one of two genes, \<open>heap3\<close> three
  chromosomes, of which \<open>genomeA\<close> has the first two and \<open>genomeB\<close> the third; \<open>genomeE\<close> has no
  chromosome.
\<close>

definition heap0 :: heap where
  "heap0 = \<lparr>arrays = (\<lambda>_. []), narrays = 0, chroms = (\<lambda>_. 0), nchroms = 0, draws = 0\<rparr>"

definition heapN :: heap where
  "heapN = \<lparr>arrays = (\<lambda>_. []), narrays = 1, chroms = (\<lambda>_. 0), nchroms = 1, draws = 0\<rparr>"

definition heapN2 :: heap where
  "heapN2 = \<lparr>arrays = (\<lambda>_. []), narrays = 2, chroms = (\<lambda>_. 0)(1 := 1), nchroms = 2, draws = 0\<rparr>"

definition heapE :: heap where
  "heapE = \<lparr>arrays = (\<lambda>_. [])(0 := [5], 1 := [9]), narrays = 2,
            chroms = (\<lambda>_. 0)(1 := 1), nchroms = 2, draws = 0\<rparr>"

definition heap2 :: heap where
  "heap2 = \<lparr>arrays = (\<lambda>_. [])(0 := [5], 1 := [6, 7]), narrays = 2,
            chroms = (\<lambda>_. 0)(1 := 1), nchroms = 2, draws = 0\<rparr>"

definition heap3 :: heap where
  "heap3 = \<lparr>arrays = (\<lambda>_. [])(0 := [5], 1 := [9], 2 := [6, 7]), narrays = 3,
            chroms = (\<lambda>_. 0)(1 := 1, 2 := 2), nchroms = 3, draws = 0\<rparr>"

definition genomeA :: Genome where
  "genomeA = \<lparr>chromosomes = [0, 1], shape = [Some 1, Some 1]\<rparr>"

definition genomeB :: Genome where
  "genomeB = \<lparr>chromosomes = [2], shape = [Some 2]\<rparr>"

definition genomeE :: Genome where
  "genomeE = \<lparr>chromosomes = [], shape = []\<rparr>"

section \<open>Loops and typed arrays\<close>

lemma for_loop_fold: "for_loop i n body s = fold body [i..<n] s"
proof (induction i n body s rule: for_loop.induct)
  case (1 i n body s)
  show ?case
  proof (cases "i < n")
    case True
    with 1 show ?thesis by (subst for_loop.simps) (simp add: upt_conv_Cons)
  next
    case False
    then show ?thesis by (subst for_loop.simps) simp
  qed
qed

lemma for_loop_invariant:
  assumes "P i s" and "i \<le> n"
    and "\<And>k t. i \<le> k \<Longrightarrow> k < n \<Longrightarrow> P k t \<Longrightarrow> P (Suc k) (body k t)"
  shows "P n (for_loop i n body s)"
  using assms
proof (induction i n body s rule: for_loop.induct)
  case (1 i n body s)
  show ?case
  proof (cases "i < n")
    case True
    have "P n (for_loop (Suc i) n body (body i s))"
      using True 1 by (intro 1(1)) auto
    then show ?thesis using True by (subst for_loop.simps) simp
  next
    case False
    then have "i = n" using 1 by simp
    then show ?thesis using 1 by (subst for_loop.simps) simp
  qed
qed

lemma for_loop_empty: "n \<le> i \<Longrightarrow> for_loop i n body s = s"
  by (subst for_loop.simps) simp

lemma typed_set_in: "k < length g \<Longrightarrow> typed_set g (int k) v = g[k := v]"
  by (simp add: typed_set_def)

lemma typed_get_in: "k < length g \<Longrightarrow> typed_get g (int k) = g ! k"
  by (simp add: typed_get_def)

lemma length_typed_set: "length (typed_set g i v) = length g"
  by (simp add: typed_set_def)

lemma update_middle:
  "length xs = k \<Longrightarrow> (xs @ y # ys)[k := v] = xs @ v # ys"
  by (simp add: list_update_append)

lemma drop_replicate_Cons: "drop n (x # replicate n x) = [x]"
proof -
  have "x # replicate n x = replicate n x @ [x]" by (simp add: replicate_append_same)
  then show ?thesis by simp
qed

lemma fill_loop:
  fixes s :: heap
  assumes "i \<le> n" and "n \<le> length (arrays s a)"
    and g: "\<And>k t. k < n \<Longrightarrow> (\<forall>b. b \<noteq> a \<longrightarrow> arrays t b = arrays s b) \<Longrightarrow> f k t = g k"
  shows "for_loop i n (\<lambda>k t. array_set a (int k) (f k t) t) s =
         s\<lparr>arrays := (arrays s)(a := take i (arrays s a) @ map g [i..<n] @ drop n (arrays s a))\<rparr>"
proof -
  define A where "A = arrays s a"
  define P where "P k t \<longleftrightarrow> t = s\<lparr>arrays := (arrays s)(a := take i A @ map g [i..<k] @ drop k A)\<rparr>" for k t
  have "P n (for_loop i n (\<lambda>k t. array_set a (int k) (f k t) t) s)"
  proof (rule for_loop_invariant)
    show "P i s" by (simp add: P_def A_def)
    show "i \<le> n" by fact
    fix k t assume ik: "i \<le> k" and kn: "k < n" and "P k t"
    then have t: "t = s\<lparr>arrays := (arrays s)(a := take i A @ map g [i..<k] @ drop k A)\<rparr>"
      by (simp add: P_def)
    have kA: "k < length A" using kn assms(2) by (simp add: A_def)
    have fk: "f k t = g k" by (rule g [OF kn]) (simp add: t)
    have len: "length (take i A @ map g [i..<k]) = k" using ik kA by simp
    have d: "drop k A = A ! k # drop (Suc k) A" using kA by (simp add: Cons_nth_drop_Suc)
    have "typed_set (take i A @ map g [i..<k] @ drop k A) (int k) (g k)
          = take i A @ map g [i..<Suc k] @ drop (Suc k) A"
      using update_middle [OF len, of "A ! k" "drop (Suc k) A" "g k"] ik kA
      by (simp add: typed_set_def d)
    then show "P (Suc k) (array_set a (int k) (f k t) t)"
      unfolding P_def array_set_def fk by (simp add: t)
  qed
  then show ?thesis by (simp add: P_def A_def)
qed

lemma length_js_array_set: "i < length xs \<Longrightarrow> length (js_array_set xs i v) = length xs"
  by (simp add: js_array_set_def)

lemma nth_js_array_set:
  "i < length xs \<Longrightarrow> js_array_set xs i v ! j = (if j = i then Some v else xs ! j)"
  by (simp add: js_array_set_def)

section \<open>Rounding to a double\<close>

lemma round_even_of_int: "round_even (of_int m) = m"
  by (simp add: round_even_def)

lemma double_0: "double 0 = 0"
  by (simp add: double_def)

lemma double_of_nat:
  assumes "n < 2 ^ 53"
  shows "double (real n) = real n"
proof (cases "n = 0")
  case True
  then show ?thesis by (simp add: double_def)
next
  case False
  define x where "x = real n"
  have x1: "1 \<le> x" and x53: "x < 2 ^ 53" using False assms by (simp_all add: x_def)
  define e where "e = \<lfloor>log 2 \<bar>x\<bar>\<rfloor>"
  have "0 \<le> log 2 x" using x1 by simp
  then have e0: "0 \<le> e" using x1 by (simp add: e_def)
  have "log 2 x < 53" using x1 x53 by (subst log_less_iff) simp_all
  then have e52: "e \<le> 52" using x1 by (simp add: e_def floor_le_iff)
  define k where "k = nat (52 - e)"
  have k: "(of_int e :: real) - 52 = - real k" using e52 by (simp add: k_def)
  have ulp: "(2 :: real) powr (of_int e - 52) = 1 / 2 ^ k"
    unfolding k by (simp add: powr_minus powr_realpow divide_simps)
  have "x / (1 / 2 ^ k) = of_int (int (n * 2 ^ k))" by (simp add: x_def)
  then have r: "round_even (x / (1 / 2 ^ k)) = int (n * 2 ^ k)"
    by (simp only: round_even_of_int)
  have "double x = (1 / 2 ^ k) * of_int (round_even (x / (1 / 2 ^ k)))"
    using x1 unfolding double_def e_def [symmetric] ulp Let_def by simp
  also have "\<dots> = x" unfolding r by (simp add: x_def)
  finally show ?thesis by (simp add: x_def)
qed

lemma double_binade:
  assumes "2 powr (of_int e) \<le> x" and "x < 2 powr (of_int e + 1)"
  shows "double x = 2 powr (of_int e - 52) * of_int (round_even (x / 2 powr (of_int e - 52)))"
proof -
  have pos: "0 < x" using assms(1) by (smt (verit) powr_gt_zero)
  have "\<lfloor>log 2 x\<rfloor> = e" using pos assms by (simp add: floor_log_eq_powr_iff)
  then show ?thesis using pos by (simp add: double_def Let_def)
qed

text \<open>
  Two products that the rounding changes before \<open>Math.floor\<close> sees them: a gene that becomes
  \<open>2^31\<close>, and the product of the double nearest to one third with 3, which becomes 1.
\<close>

lemma double_rounds_up_example: "double ((1 / 2 + 1 / 2 ^ 33) * 4294967295) = 2147483648"
proof -
  have "double ((1 / 2 + 1 / 2 ^ 33) * 4294967295) =
     2 powr (of_int 30 - 52) * of_int (round_even ((1 / 2 + 1 / 2 ^ 33) * 4294967295 / 2 powr (of_int 30 - 52)))"
    by (rule double_binade) (simp_all add: powr_numeral)
  also have "(2::real) powr (of_int 30 - 52) = 1 / 2 ^ 22"
    by (simp add: powr_minus powr_numeral field_simps)
  also have "round_even ((1 / 2 + 1 / 2 ^ 33) * 4294967295 / (1 / 2 ^ 22)) = 2 ^ 53"
    by (simp add: round_even_def) 
  finally show ?thesis by simp
qed

lemma double_tie_to_even_example: "double (6004799503160661 / 2 ^ 54 * 3) = 1"
proof -
  have "double (6004799503160661 / 2 ^ 54 * 3) =
     2 powr (of_int (-1) - 52) * of_int (round_even (6004799503160661 / 2 ^ 54 * 3 / 2 powr (of_int (-1) - 52)))"
    by (rule double_binade) (simp_all add: powr_minus powr_numeral field_simps)
  also have "(2::real) powr (of_int (-1) - 52) = 1 / 2 ^ 53"
    by (simp add: powr_minus powr_numeral field_simps)
  also have "round_even (6004799503160661 / 2 ^ 54 * 3 / (1 / 2 ^ 53)) = 2 ^ 53"
    by (simp add: round_even_def) 
  finally show ?thesis by simp
qed

lemma double_three_halves: "double (3 / 2) = 3 / 2"
proof -
  have "double (3 / 2) =
     2 powr (of_int 0 - 52) * of_int (round_even (3 / 2 / 2 powr (of_int 0 - 52)))"
    by (rule double_binade) simp_all
  also have "(2::real) powr (of_int 0 - 52) = 1 / 2 ^ 52"
    by (simp add: powr_minus powr_numeral field_simps)
  also have "round_even (3 / 2 / (1 / 2 ^ 52)) = 3 * 2 ^ 51"
    by (simp add: round_even_def)
  finally show ?thesis by simp
qed

section \<open>countOnes is the population count\<close>

lemma count_inner: "snd (for_loop 0 32 count_step (w, c)) = c + popcount w"
proof -
  define P where "P k st \<longleftrightarrow> fst st = signed_drop_bit k w \<and> snd st = c + length (filter (bit w) [0..<k])"
    for k and st :: "gene \<times> nat"
  have "P 32 (for_loop 0 32 count_step (w, c))"
  proof (rule for_loop_invariant)
    show "P 0 (w, c)" by (simp add: P_def)
    show "(0::nat) \<le> 32" by simp
    fix k t assume k: "k < (32::nat)" and Pk: "P k t"
    obtain m d where t: "t = (m, d)" by (cases t)
    have m: "m = signed_drop_bit k w" and d: "d = c + length (filter (bit w) [0..<k])"
      using Pk by (simp_all add: P_def t)
    have "m AND 1 = 1 \<longleftrightarrow> bit m 0"
      by (simp add: and_one_eq bit_0 mod2_eq_if)
    also have "\<dots> \<longleftrightarrow> bit w k"
      using k by (simp add: m bit_signed_drop_bit_iff)
    finally have b: "m AND 1 = 1 \<longleftrightarrow> bit w k" .
    have "signed_drop_bit 1 m = signed_drop_bit (Suc k) w"
      by (simp add: m)
    then show "P (Suc k) (count_step k t)"
      using b by (simp add: P_def count_step_def t d)
  qed
  then show ?thesis by (simp add: P_def popcount_def)
qed

lemma countOnes_sum: "countOnes arr = sum_list (map popcount arr)"
proof -
  have "fold (\<lambda>num count. snd (for_loop 0 32 count_step (num, count))) arr c = c + sum_list (map popcount arr)" for c
    by (induction arr arbitrary: c) (simp_all add: count_inner)
  then show ?thesis by (simp add: countOnes_def)
qed

lemma popcount_le: "popcount w \<le> 32"
  unfolding popcount_def using length_filter_le [of "bit w" "[0..<32]"] by simp

lemma popcount_xor_self: "popcount (w XOR w) = 0"
  by (simp add: popcount_def)

lemma popcount_xor_not: "popcount (w XOR NOT w) = 32"
proof -
  have "filter (bit (w XOR NOT w)) [0..<32] = [0..<32]"
    by (rule filter_True) (simp add: bit_xor_iff bit_not_iff)
  then show ?thesis by (simp add: popcount_def)
qed

lemma countOnes_le: "countOnes xs \<le> 32 * length xs"
  unfolding countOnes_sum by (induction xs) (simp_all add: add_le_mono [OF popcount_le])

lemma countOnes_zero: "countOnes (replicate n 0) = 0"
  by (simp add: countOnes_sum popcount_def)

section \<open>Stores that preserve what exists\<close>

lemma preserves_refl: "preserves s s"
  by (simp add: preserves_def)

lemma preserves_trans: "preserves s t \<Longrightarrow> preserves t u \<Longrightarrow> preserves s u"
  by (auto simp: preserves_def)

lemma preserves_valid: "preserves s t \<Longrightarrow> valid_chrom s c \<Longrightarrow> valid_chrom t c"
  by (auto simp: preserves_def valid_chrom_def)

lemma preserves_genes: "preserves s t \<Longrightarrow> valid_chrom s c \<Longrightarrow> genes t c = genes s c"
  by (auto simp: preserves_def valid_chrom_def genes_def)

lemma preserves_length:
  "preserves s t \<Longrightarrow> valid_chrom s c \<Longrightarrow> Chromosome_length t c = Chromosome_length s c"
  by (simp add: Chromosome_length_def preserves_genes)

lemma preserves_valid_all:
  "preserves s t \<Longrightarrow> list_all (valid_chrom s) cs \<Longrightarrow> list_all (valid_chrom t) cs"
  by (auto simp: list_all_iff intro: preserves_valid)

lemma preserves_valid_genome: "preserves s t \<Longrightarrow> valid_genome s g \<Longrightarrow> valid_genome t g"
  by (simp add: valid_genome_def preserves_valid_all)

lemma same_but_refl: "same_but a s s"
  by (simp add: same_but_def)

lemma same_but_trans: "same_but a s t \<Longrightarrow> same_but a t u \<Longrightarrow> same_but a s u"
  by (auto simp: same_but_def)

lemma mutated_preserves:
  assumes "preserves s s1" and "\<not> c < nchroms s" and "\<not> chroms s1 c < narrays s"
    and "mutated c s1 s2"
  shows "preserves s s2"
  using assms unfolding preserves_def mutated_def
  by (metis (no_types, lifting) le_trans less_le_trans)

section \<open>Properties of the construction and the copy of a Chromosome\<close>

lemma Chromosome_new_eq:
  "Chromosome_new R len s =
     (nchroms s,
      s\<lparr>arrays := (arrays s)(narrays s := map (\<lambda>k. random_gene R (draws s + k)) [0..<len]),
        narrays := Suc (narrays s),
        chroms := (chroms s)(nchroms s := narrays s),
        nchroms := Suc (nchroms s),
        draws := draws s + len\<rparr>)"
proof -
  define a where "a = narrays s"
  define s1 where "s1 = s\<lparr>arrays := (arrays s)(a := replicate len 0), narrays := Suc a\<rparr>"
  define body where "body = (\<lambda>i t. let (r, t1) = random R t
                         in array_set a (int i) (word_of_int \<lfloor>double (r * 4294967295)\<rfloor>) t1)"
  define P where "P k t \<longleftrightarrow> t = s1\<lparr>arrays := (arrays s1)(a := map (\<lambda>k. random_gene R (draws s + k)) [0..<k] @ replicate (len - k) 0),
       draws := draws s + k\<rparr>" for k t
  have "P len (for_loop 0 len body s1)"
  proof (rule for_loop_invariant)
    show "P 0 s1" by (simp add: P_def s1_def)
    show "0 \<le> len" by simp
    fix k t assume k: "k < len" and "P k t"
    then have t: "t = s1\<lparr>arrays := (arrays s1)(a := map (\<lambda>k. random_gene R (draws s + k)) [0..<k] @ replicate (len - k) 0),
       draws := draws s + k\<rparr>" by (simp add: P_def)
    have r: "replicate (len - k) (0::gene) = 0 # replicate (len - Suc k) 0"
      using k by (cases "len - k") (simp_all add: Suc_diff_Suc)
    show "P (Suc k) (body k t)"
      unfolding P_def body_def random_def array_set_def t
      by (simp add: s1_def typed_set_in r update_middle random_gene_def)
  qed
  then have "for_loop 0 len body s1 =
      s1\<lparr>arrays := (arrays s1)(a := map (\<lambda>k. random_gene R (draws s + k)) [0..<len]),
         draws := draws s + len\<rparr>"
    by (simp add: P_def)
  then show ?thesis
    unfolding Chromosome_new_def new_Uint32Array_def body_def s1_def a_def
    by (simp add: Let_def)
qed

lemma Chromosome_copy_eq:
  assumes "valid_chrom s this"
  shows "Chromosome_copy R this s =
     (nchroms s,
      s\<lparr>arrays := (arrays s)(narrays s := [], Suc (narrays s) := genes s this),
        narrays := Suc (Suc (narrays s)),
        chroms := (chroms s)(nchroms s := Suc (narrays s)),
        nchroms := Suc (nchroms s)\<rparr>)"
  using assms
  unfolding Chromosome_copy_def Chromosome_new_eq new_Uint32Array_def valid_chrom_def
  by (simp add: genes_def)

lemma Chromosome_new_preserves: "preserves s (snd (Chromosome_new R len s))"
  by (simp add: Chromosome_new_eq preserves_def)

lemma Chromosome_copy_preserves:
  "valid_chrom s c \<Longrightarrow> preserves s (snd (Chromosome_copy R c s))"
  by (simp add: Chromosome_copy_eq preserves_def)

lemma Chromosome_new_facts:
  assumes "Chromosome_new R len s = (c, s')"
  shows "preserves s s'" and "valid_chrom s' c" and "Chromosome_length s' c = len"
    and "\<not> valid_chrom s c"
  using assms unfolding Chromosome_new_eq
  by (auto simp: preserves_def valid_chrom_def Chromosome_length_def genes_def)

lemma Chromosome_copy_facts:
  assumes "valid_chrom s c" and "Chromosome_copy R c s = (c', s')"
  shows "preserves s s'" and "valid_chrom s' c'" and "genes s' c' = genes s c"
    and "\<not> valid_chrom s c'"
  using assms unfolding Chromosome_copy_eq [OF assms(1)]
  by (auto simp: preserves_def valid_chrom_def genes_def)

lemma heapN_new: "Chromosome_new R 0 heap0 = (0, heapN)"
  by (auto simp: Chromosome_new_eq heap0_def heapN_def)

lemma heapN_facts: "valid_chrom heapN 0" "genes heapN 0 = []"
  by (simp_all add: heapN_def valid_chrom_def genes_def)

lemma heapN2_facts:
  "valid_chrom heapN2 0" "valid_chrom heapN2 1" "genes heapN2 0 = []" "genes heapN2 1 = []"
  by (simp_all add: heapN2_def valid_chrom_def genes_def)

lemma heapE_facts:
  "valid_chrom heapE 0" "valid_chrom heapE 1" "genes heapE 0 = [5]" "genes heapE 1 = [9]"
  "Chromosome_length heapE 0 = 1" "Chromosome_length heapE 1 = 1"
  "dominance heapE 0 1 = (0, 1)" "draws heapE = 0"
  by (simp_all add: heapE_def valid_chrom_def genes_def Chromosome_length_def dominance_def)

lemma heap3_facts:
  "valid_chrom heap3 0" "valid_chrom heap3 1" "valid_chrom heap3 2"
  "genes heap3 0 = [5]" "genes heap3 1 = [9]" "genes heap3 2 = [6, 7]"
  by (simp_all add: heap3_def valid_chrom_def genes_def)

lemma heap3_valid: "valid_genome heap3 genomeA" "valid_genome heap3 genomeB"
  by (simp_all add: valid_genome_def genomeA_def genomeB_def valid_chrom_def heap3_def)

section \<open>Properties of Chromosome.diversityWith\<close>

lemma extend_shorter_eq:
  assumes "longer < narrays s" "shorter < narrays s"
    and "length (arrays s shorter) \<le> length (arrays s longer)"
  shows "extend_shorter longer shorter s =
     (narrays s,
      s\<lparr>arrays := (arrays s)(narrays s :=
            arrays s shorter @
            map (\<lambda>i. NOT (arrays s longer ! i)) [length (arrays s shorter)..<length (arrays s longer)]),
        narrays := Suc (narrays s)\<rparr>)"
proof -
  define L S e where "L = arrays s longer" and "S = arrays s shorter" and "e = narrays s"
  define s2 where "s2 = s\<lparr>arrays := (arrays s)(e := S @ replicate (length L - length S) 0), narrays := Suc e\<rparr>"
  have ne: "longer \<noteq> e" "shorter \<noteq> e" using assms by (simp_all add: e_def)
  have le: "length S \<le> length L" using assms by (simp add: L_def S_def)
  have "for_loop (length S) (length L)
                 (\<lambda>i t. array_set e (int i) (NOT (array_get t longer (int i))) t) s2 =
        s2\<lparr>arrays := (arrays s2)(e := take (length S) (arrays s2 e) @ map (\<lambda>i. NOT (L ! i)) [length S..<length L] @ drop (length L) (arrays s2 e))\<rparr>"
  proof (rule fill_loop)
    show "length S \<le> length L" by fact
    show "length L \<le> length (arrays s2 e)" using le by (simp add: s2_def)
    fix k and t :: heap assume "k < length L" and "\<forall>b. b \<noteq> e \<longrightarrow> arrays t b = arrays s2 b"
    then show "NOT (array_get t longer (int k)) = NOT (L ! k)"
      using ne by (simp add: array_get_def typed_get_in s2_def L_def)
  qed
  then have loop: "for_loop (length S) (length L)
                 (\<lambda>i t. array_set e (int i) (NOT (array_get t longer (int i))) t) s2 =
        s\<lparr>arrays := (arrays s)(e := S @ map (\<lambda>i. NOT (L ! i)) [length S..<length L]), narrays := Suc e\<rparr>"
    using le by (simp add: s2_def)
  have s2: "array_set_all e (arrays (s\<lparr>arrays := (arrays s)(e := replicate (length L) 0), narrays := Suc e\<rparr>) shorter)
      (s\<lparr>arrays := (arrays s)(e := replicate (length L) 0), narrays := Suc e\<rparr>) = s2"
    using ne by (simp add: array_set_all_def s2_def S_def)
  have a2: "arrays s2 shorter = S" "arrays s2 longer = L"
    using ne by (simp_all add: s2_def S_def L_def)
  show ?thesis
    unfolding extend_shorter_def new_Uint32Array_def
    unfolding L_def [symmetric] S_def [symmetric] e_def [symmetric] Let_def prod.case s2 a2 loop ..
qed

lemma xor_arrays_eq:
  assumes "longer < narrays s" "extendedShorter < narrays s"
  shows "xor_arrays longer extendedShorter s =
     (narrays s,
      s\<lparr>arrays := (arrays s)(narrays s :=
            map (\<lambda>i. arrays s longer ! i XOR typed_get (arrays s extendedShorter) (int i))
              [0..<length (arrays s longer)]),
        narrays := Suc (narrays s)\<rparr>)"
proof -
  define L E x where "L = arrays s longer" and "E = arrays s extendedShorter" and "x = narrays s"
  define s1 where "s1 = s\<lparr>arrays := (arrays s)(x := replicate (length L) 0), narrays := Suc x\<rparr>"
  have ne: "longer \<noteq> x" "extendedShorter \<noteq> x" using assms by (simp_all add: x_def)
  have "for_loop 0 (length L)
            (\<lambda>i t. array_set x (int i)
                      (array_get t longer (int i) XOR array_get t extendedShorter (int i)) t) s1 =
        s1\<lparr>arrays := (arrays s1)(x := take 0 (arrays s1 x) @ map (\<lambda>i. L ! i XOR typed_get E (int i)) [0..<length L] @ drop (length L) (arrays s1 x))\<rparr>"
  proof (rule fill_loop)
    show "0 \<le> length L" by simp
    show "length L \<le> length (arrays s1 x)" by (simp add: s1_def)
    fix k and t :: heap assume "k < length L" and "\<forall>b. b \<noteq> x \<longrightarrow> arrays t b = arrays s1 b"
    then show "array_get t longer (int k) XOR array_get t extendedShorter (int k) = L ! k XOR typed_get E (int k)"
      using ne by (simp add: array_get_def typed_get_in s1_def L_def E_def)
  qed
  then have loop: "for_loop 0 (length L)
            (\<lambda>i t. array_set x (int i)
                      (array_get t longer (int i) XOR array_get t extendedShorter (int i)) t) s1 =
        s\<lparr>arrays := (arrays s)(x := map (\<lambda>i. L ! i XOR typed_get E (int i)) [0..<length L]), narrays := Suc x\<rparr>"
    by (simp add: s1_def)
  have a1: "arrays s1 longer = L" using ne by (simp add: s1_def L_def)
  show ?thesis
    unfolding xor_arrays_def new_Uint32Array_def
    unfolding L_def [symmetric] E_def [symmetric] x_def [symmetric] Let_def prod.case s1_def [symmetric] a1 loop ..
qed

lemma longer_shorter_le: "longer_shorter s this other = (L, S) \<Longrightarrow> length S \<le> length L"
  by (auto simp: longer_shorter_def split: if_splits)

lemma Chromosome_diversityWith_eq:
  assumes v: "valid_chrom s this" "valid_chrom s other"
    and ls: "longer_shorter s this other = (L, S)"
  shows "Chromosome_diversityWith this other s =
     (js_div (Num (real (countOnes (xor_genes L S)))) (Num (real (length L * 32))),
      s\<lparr>arrays := (arrays s)(narrays s := S @ map (\<lambda>i. NOT (L ! i)) [length S..<length L],
                              Suc (narrays s) := xor_genes L S),
        narrays := Suc (Suc (narrays s))\<rparr>)"
proof -
  define lr sr where "lr = (if Chromosome_length s this > Chromosome_length s other then chroms s this else chroms s other)"
    and "sr = (if Chromosome_length s this > Chromosome_length s other then chroms s other else chroms s this)"
  have L: "arrays s lr = L" and S: "arrays s sr = S"
    using ls by (auto simp: lr_def sr_def longer_shorter_def Chromosome_length_def genes_def split: if_splits)
  have lr: "lr < narrays s" and sr: "sr < narrays s"
    using v by (auto simp: lr_def sr_def valid_chrom_def)
  have le: "length S \<le> length L" using ls by (rule longer_shorter_le)
  have pick: "(if Chromosome_length s this > Chromosome_length s other
             then (chroms s this, chroms s other) else (chroms s other, chroms s this)) = (lr, sr)"
    by (simp add: lr_def sr_def)
  define s1 where "s1 = s\<lparr>arrays := (arrays s)(narrays s := S @ map (\<lambda>i. NOT (L ! i)) [length S..<length L]),
        narrays := Suc (narrays s)\<rparr>"
  have ext: "extend_shorter lr sr s = (narrays s, s1)"
    using extend_shorter_eq [OF lr sr] le by (simp add: L S s1_def)
  have E: "map (\<lambda>i. L ! i XOR typed_get (S @ map (\<lambda>i. NOT (L ! i)) [length S..<length L]) (int i)) [0..<length L]
           = xor_genes L S"
    unfolding xor_genes_def
  proof (rule map_cong [OF refl])
    fix k assume "k \<in> set [0..<length L]"
    then have k: "k < length L" by simp
    have "(S @ map (\<lambda>i. NOT (L ! i)) [length S..<length L]) ! k = (if k < length S then S ! k else NOT (L ! k))"
    proof (cases "k < length S")
      case True
      then show ?thesis by (simp add: nth_append)
    next
      case False
      then have "length S + (k - length S) = k" "k - length S < length L - length S"
        using k by simp_all
      then show ?thesis using False by (simp add: nth_append)
    qed
    then show "L ! k XOR typed_get (S @ map (\<lambda>i. NOT (L ! i)) [length S..<length L]) (int k)
        = L ! k XOR (if k < length S then S ! k else NOT (L ! k))"
      using k le by (simp add: typed_get_def)
  qed
  define s2 where "s2 = s1\<lparr>arrays := (arrays s1)(narrays s1 := xor_genes L S), narrays := Suc (narrays s1)\<rparr>"
  have "lr < narrays s1" "narrays s < narrays s1" using lr by (simp_all add: s1_def)
  from xor_arrays_eq [OF this]
  have xo: "xor_arrays lr (narrays s) s1 = (Suc (narrays s), s2)"
    using lr by (simp add: s1_def L E s2_def)
  have a: "arrays s2 (Suc (narrays s)) = xor_genes L S" "arrays s2 lr = L"
    using lr by (simp_all add: s2_def s1_def L)
  have "Chromosome_diversityWith this other s =
     (js_div (Num (real (countOnes (xor_genes L S)))) (Num (real (length L * 32))), s2)"
    unfolding Chromosome_diversityWith_def pick Let_def prod.case ext xo a ..
  then show ?thesis by (simp add: s2_def s1_def)
qed

lemma xor_genes_self: "xor_genes L L = replicate (length L) 0"
  by (rule nth_equalityI) (simp_all add: xor_genes_def)

lemma Chromosome_diversityWith_value:
  assumes "valid_chrom s this" "valid_chrom s other"
    and "longer_shorter s this other = (L, S)" and "L \<noteq> []"
  shows "fst (Chromosome_diversityWith this other s) =
         Num (real (countOnes (xor_genes L S)) / real (length L * 32))"
  using assms(4) by (simp add: Chromosome_diversityWith_eq [OF assms(1-3)])

lemma ratio_bounds:
  assumes "L \<noteq> []"
  shows "0 \<le> real (countOnes (xor_genes L S)) / real (length L * 32)"
    and "real (countOnes (xor_genes L S)) / real (length L * 32) \<le> 1"
proof -
  have "countOnes (xor_genes L S) \<le> 32 * length (xor_genes L S)" by (rule countOnes_le)
  then have "real (countOnes (xor_genes L S)) \<le> real (length L * 32)"
    by (simp add: xor_genes_def mult.commute)
  moreover have "0 < real (length L * 32)" using assms by simp
  ultimately show "real (countOnes (xor_genes L S)) / real (length L * 32) \<le> 1"
    by (simp add: divide_le_eq_1)
  show "0 \<le> real (countOnes (xor_genes L S)) / real (length L * 32)" by simp
qed

lemma Chromosome_diversityWith_unit:
  assumes "valid_chrom s a" and "valid_chrom s b"
    and "genes s a \<noteq> [] \<or> genes s b \<noteq> []"
  shows "\<exists>d. fst (Chromosome_diversityWith a b s) = Num d \<and> 0 \<le> d \<and> d \<le> 1"
proof -
  obtain L S where ls: "longer_shorter s a b = (L, S)" by (cases "longer_shorter s a b")
  have L: "L \<noteq> []" using assms(3) ls by (auto simp: longer_shorter_def split: if_splits)
  show ?thesis
    using Chromosome_diversityWith_value [OF assms(1,2) ls L] ratio_bounds [OF L, of S] by simp
qed

lemma Chromosome_diversityWith_empty:
  assumes "valid_chrom s a" and "valid_chrom s b"
    and "genes s a = []" and "genes s b = []"
  shows "fst (Chromosome_diversityWith a b s) = NaN"
proof -
  have ls: "longer_shorter s a b = ([], [])" using assms(3,4) by (simp add: longer_shorter_def)
  show ?thesis
    unfolding Chromosome_diversityWith_eq [OF assms(1,2) ls]
    by (simp add: xor_genes_def countOnes_def)
qed

lemma Chromosome_diversityWith_self:
  assumes "valid_chrom s a" and "genes s a \<noteq> []"
  shows "fst (Chromosome_diversityWith a a s) = Num 0"
proof -
  have ls: "longer_shorter s a a = (genes s a, genes s a)" by (simp add: longer_shorter_def)
  show ?thesis
    using assms(2)
    unfolding Chromosome_diversityWith_value [OF assms(1,1) ls assms(2)]
    by (simp add: xor_genes_self countOnes_zero)
qed

lemma Chromosome_diversityWith_preserves:
  assumes "valid_chrom s a" "valid_chrom s b"
  shows "preserves s (snd (Chromosome_diversityWith a b s))"
proof -
  obtain L S where "longer_shorter s a b = (L, S)" by (cases "longer_shorter s a b")
  from Chromosome_diversityWith_eq [OF assms this] show ?thesis
    by (simp add: preserves_def)
qed

lemma Chromosome_diversityWith_draws:
  assumes "valid_chrom s a" "valid_chrom s b"
  shows "draws (snd (Chromosome_diversityWith a b s)) = draws s"
    and "nchroms (snd (Chromosome_diversityWith a b s)) = nchroms s"
    and "chroms (snd (Chromosome_diversityWith a b s)) = chroms s"
proof -
  obtain L S where "longer_shorter s a b = (L, S)" by (cases "longer_shorter s a b")
  from Chromosome_diversityWith_eq [OF assms this]
  show "draws (snd (Chromosome_diversityWith a b s)) = draws s"
    and "nchroms (snd (Chromosome_diversityWith a b s)) = nchroms s"
    and "chroms (snd (Chromosome_diversityWith a b s)) = chroms s"
    by simp_all
qed

text \<open>
  Claim C7. For two non-empty chromosomes \<open>a\<close> and \<open>b\<close>, \<open>a.diversityWith(b)\<close> is a number in
  the closed interval from 0 to 1: it is the number of set bits of the element-wise XOR of the
  longer gene sequence with the complement-extended shorter one, divided by 32 times the
  longer length; that count never exceeds the divisor, and \<open>countOnes\<close> is the exact population
  count of the genes.
\<close>

theorem diversity_in_unit_interval:
  assumes "valid_chrom s a" and "valid_chrom s b"
    and "genes s a \<noteq> []" and "genes s b \<noteq> []"
    and "longer_shorter s a b = (L, S)"
  shows "(\<exists>d. fst (Chromosome_diversityWith a b s) = Num d \<and> 0 \<le> d \<and> d \<le> 1) \<and>
         fst (Chromosome_diversityWith a b s) =
           Num (real (countOnes (xor_genes L S)) / real (length L * 32)) \<and>
         countOnes (xor_genes L S) \<le> length L * 32 \<and>
         countOnes (xor_genes L S) = sum_list (map popcount (xor_genes L S))"
proof -
  have L: "L \<noteq> []" using assms(3-5) by (auto simp: longer_shorter_def split: if_splits)
  have v: "fst (Chromosome_diversityWith a b s) =
           Num (real (countOnes (xor_genes L S)) / real (length L * 32))"
    using assms(1,2,5) L by (rule Chromosome_diversityWith_value)
  have "countOnes (xor_genes L S) \<le> 32 * length (xor_genes L S)" by (rule countOnes_le)
  then have c: "countOnes (xor_genes L S) \<le> length L * 32"
    by (simp add: xor_genes_def mult.commute)
  show ?thesis using v ratio_bounds [OF L, of S] c countOnes_sum by simp
qed

theorem diversity_in_unit_interval_witness:
  "valid_chrom heap2 0 \<and> valid_chrom heap2 1 \<and> genes heap2 0 \<noteq> [] \<and> genes heap2 1 \<noteq> [] \<and>
   longer_shorter heap2 0 1 = ([6, 7], [5]) \<and>
   fst (Chromosome_diversityWith 0 1 heap2) = Num (34 / 64)"
proof -
  have v: "valid_chrom heap2 0" "valid_chrom heap2 1"
    by (simp_all add: valid_chrom_def heap2_def)
  have g: "genes heap2 0 = [5]" "genes heap2 1 = [6, 7]"
    by (simp_all add: genes_def heap2_def)
  have ls: "longer_shorter heap2 0 1 = ([6, 7], [5])"
    unfolding longer_shorter_def g by simp
  have x: "xor_genes [6, 7] [5] = [3, 0xFFFFFFFF]"
    by (simp add: xor_genes_def upt_rec_numeral)
  have c: "popcount 3 = 2" "popcount 0xFFFFFFFF = 32"
    unfolding popcount_def by (simp_all add: upt_conv_Cons bit_numeral_simps)
  have ne: "genes heap2 0 \<noteq> []" "genes heap2 1 \<noteq> []"
    unfolding g by simp_all
  have "fst (Chromosome_diversityWith 0 1 heap2) = Num (34 / 64)"
    using diversity_in_unit_interval [OF v ne ls] by (simp add: x c)
  with v ne ls show ?thesis by blast
qed

text \<open>
  Claim C6 says that \<open>a.diversityWith(a)\<close> is 0 also for a chromosome of length 0. The program
  on \<open>a = new Chromosome(0)\<close> divides 0 by 0 and returns NaN. (For a chromosome with a gene the
  result is 0: lemma \<open>Chromosome_diversityWith_self\<close>.)
\<close>

theorem diversity_self_empty:
  "Chromosome_new R 0 heap0 = (0, heapN) \<and> Chromosome_length heapN 0 = 0 \<and>
   fst (Chromosome_diversityWith 0 0 heapN) = NaN"
  using heapN_new heapN_facts Chromosome_diversityWith_empty [OF heapN_facts(1,1,2,2)]
  by (simp add: Chromosome_length_def)

section \<open>Properties of Chromosome.spawnWith\<close>

lemma dominance_le:
  "dominance s this other = (d, nd) \<Longrightarrow> length (genes s nd) \<le> length (genes s d)"
  by (auto simp: dominance_def Chromosome_length_def split: if_splits)

lemma dominance_valid:
  "dominance s this other = (d, nd) \<Longrightarrow> valid_chrom s this \<Longrightarrow> valid_chrom s other \<Longrightarrow>
   valid_chrom s d \<and> valid_chrom s nd"
  by (auto simp: dominance_def split: if_splits)

lemma spawn_loop_eq:
  fixes s1 :: heap
  assumes D: "arrays s1 (chroms s1 child) = D" and N: "arrays s1 (chroms s1 nondom) = N"
    and ne: "chroms s1 nondom \<noteq> chroms s1 child"
  shows "for_loop 0 (length D) (spawn_step R child nondom) s1 =
         s1\<lparr>arrays := (arrays s1)(chroms s1 child := crossover R (draws s1) D N),
            draws := draws s1 + min (length D) (length N)\<rparr>"
proof -
  define f where "f = (\<lambda>i. if i < length N \<and> R (draws s1 + i) > 1 / 2 then N ! i else D ! i)"
  define ca where "ca = chroms s1 child"
  define P where "P k t \<longleftrightarrow> t = s1\<lparr>arrays := (arrays s1)(ca := map f [0..<k] @ drop k D),
            draws := draws s1 + min k (length N)\<rparr>" for k t
  have "P (length D) (for_loop 0 (length D) (spawn_step R child nondom) s1)"
  proof (rule for_loop_invariant)
    show "P 0 s1" by (simp add: P_def ca_def D [symmetric])
    show "0 \<le> length D" by simp
    fix k t assume kD: "k < length D" and "P k t"
    then have t: "t = s1\<lparr>arrays := (arrays s1)(ca := map f [0..<k] @ drop k D),
            draws := draws s1 + min k (length N)\<rparr>" by (simp add: P_def)
    have d: "drop k D = D ! k # drop (Suc k) D" using kD by (simp add: Cons_nth_drop_Suc)
    have lenN: "Chromosome_length t nondom = length N"
      using ne N by (simp add: Chromosome_length_def genes_def t ca_def)
    show "P (Suc k) (spawn_step R child nondom k t)"
    proof (cases "k < length N")
      case False
      then have "f k = D ! k" by (simp add: f_def)
      then show ?thesis
        using False unfolding P_def spawn_step_def lenN
        by (simp add: t d min_def)
    next
      case True
      then have mk: "min k (length N) = k" "min (Suc k) (length N) = Suc k" by simp_all
      have r: "random R t = (R (draws s1 + k), t\<lparr>draws := Suc (draws s1 + k)\<rparr>)"
        by (simp add: random_def t mk)
      have len: "length (map f [0..<k]) = k" by simp
      show ?thesis
      proof (cases "R (draws s1 + k) > 0.5")
        case False
        then have "f k = D ! k" by (simp add: f_def)
        then show ?thesis
          using False True unfolding P_def spawn_step_def lenN r
          by (simp add: t d mk)
      next
        case gt: True
        then have fk: "f k = N ! k" using True by (simp add: f_def)
        have g: "array_get (t\<lparr>draws := Suc (draws s1 + k)\<rparr>) (chroms s1 nondom) (int k) = N ! k"
          using ne N True by (simp add: array_get_def t ca_def typed_get_in)
        have u: "typed_set (map f [0..<k] @ drop k D) (int k) (N ! k) = map f [0..<Suc k] @ drop (Suc k) D"
          using update_middle [OF len, of "D ! k" "drop (Suc k) D" "N ! k"] kD
          by (simp add: typed_set_def d fk)
        have c: "chroms (t\<lparr>draws := Suc (draws s1 + k)\<rparr>) = chroms s1" by (simp add: t)
        show ?thesis
          using gt True unfolding P_def spawn_step_def lenN r
          by (simp add: c g array_set_def ca_def [symmetric]) (simp add: t u mk)
      qed
    qed
  qed
  then show ?thesis by (simp add: P_def crossover_def f_def ca_def)
qed

lemma Chromosome_spawnWith_eq:
  assumes v: "valid_chrom s this" "valid_chrom s other"
    and dom: "dominance s this other = (d, nd)"
  shows "Chromosome_spawnWith R this other s =
     (nchroms s,
      s\<lparr>arrays := (arrays s)(narrays s := [],
                              Suc (narrays s) := crossover R (draws s) (genes s d) (genes s nd)),
        narrays := Suc (Suc (narrays s)),
        chroms := (chroms s)(nchroms s := Suc (narrays s)),
        nchroms := Suc (nchroms s),
        draws := draws s + length (genes s nd)\<rparr>)"
proof -
  have vd: "valid_chrom s d" "valid_chrom s nd"
    using dominance_valid [OF dom v] by simp_all
  define s1 where "s1 = s\<lparr>arrays := (arrays s)(narrays s := [], Suc (narrays s) := genes s d),
        narrays := Suc (Suc (narrays s)),
        chroms := (chroms s)(nchroms s := Suc (narrays s)),
        nchroms := Suc (nchroms s)\<rparr>"
  have cp: "Chromosome_copy R d s = (nchroms s, s1)"
    by (simp add: Chromosome_copy_eq [OF vd(1)] s1_def)
  have nd: "nd \<noteq> nchroms s" "chroms s nd \<noteq> narrays s" "chroms s nd \<noteq> Suc (narrays s)"
    using vd(2) by (auto simp: valid_chrom_def)
  have D: "arrays s1 (chroms s1 (nchroms s)) = genes s d"
    by (simp add: s1_def)
  have N: "arrays s1 (chroms s1 nd) = genes s nd"
    using nd by (simp add: s1_def genes_def)
  have ne: "chroms s1 nd \<noteq> chroms s1 (nchroms s)"
    using nd by (simp add: s1_def)
  have len: "Chromosome_length s1 (nchroms s) = length (genes s d)"
    by (simp add: Chromosome_length_def genes_def D)
  have m: "min (length (genes s d)) (length (genes s nd)) = length (genes s nd)"
    using dominance_le [OF dom] by simp
  show ?thesis
    unfolding Chromosome_spawnWith_def dom Let_def prod.case cp len spawn_loop_eq [OF D N ne] m
    by (simp add: s1_def)
qed

lemma Chromosome_spawnWith_preserves:
  assumes "valid_chrom s a" "valid_chrom s b"
  shows "preserves s (snd (Chromosome_spawnWith R a b s))"
proof -
  obtain d nd where "dominance s a b = (d, nd)" by (cases "dominance s a b")
  from Chromosome_spawnWith_eq [OF assms this] show ?thesis
    by (simp add: preserves_def)
qed

lemma Chromosome_spawnWith_child:
  assumes v: "valid_chrom s this" "valid_chrom s other"
    and dom: "dominance s this other = (d, nd)"
    and sp: "Chromosome_spawnWith R this other s = (child, s')"
  shows "child = nchroms s" and "valid_chrom s' child"
    and "genes s' child = crossover R (draws s) (genes s d) (genes s nd)"
    and "chroms s' child = Suc (narrays s)"
    and "draws s' = draws s + length (genes s nd)"
    and "narrays s' = Suc (Suc (narrays s))" and "nchroms s' = Suc (nchroms s)"
  using sp unfolding Chromosome_spawnWith_eq [OF v dom]
  by (auto simp: valid_chrom_def genes_def)


lemma length_crossover: "length (crossover R p D N) = length D"
  by (simp add: crossover_def)

lemma Chromosome_spawnWith_length:
  assumes "valid_chrom s a" and "valid_chrom s b"
    and "Chromosome_spawnWith R a b s = (c, s1)"
  shows "Chromosome_length s1 c = max (Chromosome_length s a) (Chromosome_length s b)"
proof -
  obtain d nd where dom: "dominance s a b = (d, nd)" by (cases "dominance s a b")
  have "Chromosome_length s d = max (Chromosome_length s a) (Chromosome_length s b)"
    using dom by (auto simp: dominance_def split: if_splits)
  then show ?thesis
    using Chromosome_spawnWith_child(3) [OF assms(1,2) dom assms(3)]
    by (simp add: Chromosome_length_def length_crossover)
qed



text \<open>
  Claim C4, as amended. With equal lengths the receiver \<open>a\<close> of \<open>a.spawnWith(b)\<close> is the
  dominant parent and the argument \<open>b\<close> the non-dominant one (the test \<open>other.length >
  this.length\<close> is strict); with different lengths the longer one is dominant. The child's
  genes are the crossover that keeps the dominant parent's gene wherever the coin does not
  select the other parent's.
\<close>

theorem spawnWith_dominant_parent:
  assumes "valid_chrom s a" and "valid_chrom s b"
    and "Chromosome_spawnWith R a b s = (child, s')"
  shows "(Chromosome_length s a = Chromosome_length s b \<longrightarrow>
            dominance s a b = (a, b) \<and>
            genes s' child = crossover R (draws s) (genes s a) (genes s b)) \<and>
         (Chromosome_length s a < Chromosome_length s b \<longrightarrow>
            dominance s a b = (b, a) \<and>
            genes s' child = crossover R (draws s) (genes s b) (genes s a)) \<and>
         (Chromosome_length s b < Chromosome_length s a \<longrightarrow>
            dominance s a b = (a, b) \<and>
            genes s' child = crossover R (draws s) (genes s a) (genes s b))"
proof -
  have 1: "dominance s a b = (a, b) \<Longrightarrow> genes s' child = crossover R (draws s) (genes s a) (genes s b)"
    by (rule Chromosome_spawnWith_child(3) [OF assms(1,2) _ assms(3)])
  have 2: "dominance s a b = (b, a) \<Longrightarrow> genes s' child = crossover R (draws s) (genes s b) (genes s a)"
    by (rule Chromosome_spawnWith_child(3) [OF assms(1,2) _ assms(3)])
  show ?thesis using 1 2 by (simp add: dominance_def)
qed

lemma heapE_spawn:
  "genes (snd (Chromosome_spawnWith (\<lambda>_. 1 / 2) 0 1 heapE))
         (fst (Chromosome_spawnWith (\<lambda>_. 1 / 2) 0 1 heapE)) = [5]"
proof -
  obtain child s' where sp: "Chromosome_spawnWith (\<lambda>_. 1 / 2) 0 1 heapE = (child, s')"
    by (cases "Chromosome_spawnWith (\<lambda>_. 1 / 2) 0 1 heapE")
  have "genes s' child = crossover (\<lambda>_. 1 / 2) (draws heapE) (genes heapE 0) (genes heapE 1)"
    by (rule Chromosome_spawnWith_child(3) [OF heapE_facts(1,2,7) sp])
  then show ?thesis unfolding sp heapE_facts by (simp add: crossover_def)
qed

theorem spawnWith_tie_counterexample:
  "Chromosome_length heapE 0 = Chromosome_length heapE 1 \<and>
   dominance heapE 0 1 \<noteq> (1, 0) \<and>
   genes (snd (Chromosome_spawnWith (\<lambda>_. 1 / 2) 0 1 heapE))
         (fst (Chromosome_spawnWith (\<lambda>_. 1 / 2) 0 1 heapE)) = genes heapE 0 \<and>
   genes heapE 0 \<noteq> genes heapE 1"
  unfolding heapE_spawn heapE_facts by simp

theorem spawnWith_dominant_parent_witness:
  "valid_chrom heapE 0 \<and> valid_chrom heapE 1 \<and>
   Chromosome_length heapE 0 = Chromosome_length heapE 1 \<and>
   dominance heapE 0 1 = (0, 1) \<and>
   genes (snd (Chromosome_spawnWith (\<lambda>_. 3 / 4) 0 1 heapE))
         (fst (Chromosome_spawnWith (\<lambda>_. 3 / 4) 0 1 heapE)) = [9]"
proof -
  obtain child s' where sp: "Chromosome_spawnWith (\<lambda>_. 3 / 4) 0 1 heapE = (child, s')"
    by (cases "Chromosome_spawnWith (\<lambda>_. 3 / 4) 0 1 heapE")
  have "genes s' child = crossover (\<lambda>_. 3 / 4) (draws heapE) (genes heapE 0) (genes heapE 1)"
    using spawnWith_dominant_parent [OF heapE_facts(1,2) sp]
    unfolding heapE_facts by simp
  then have "genes s' child = [9]"
    unfolding heapE_facts by (simp add: crossover_def)
  then show ?thesis using heapE_facts unfolding sp by simp
qed

section \<open>Properties of Chromosome.mutate\<close>

subsection \<open>Where the loop returns and where it does not\<close>

lemma mutate_loop_PosInf_aux:
  assumes "mutate_loop R this q n s = Some t"
  shows "n \<noteq> PosInf"
proof (rule mutate_loop.raw_induct [where P = "\<lambda>R this q n s t. n \<noteq> PosInf", OF _ assms])
  fix f R this q n s t
  assume IH: "\<And>R this q n s t. f R this q n s = Some t \<Longrightarrow> n \<noteq> PosInf"
    and eq: "(if js_gt n (Num 0) then f R this q (js_dec n) (mutation_attempt R this q s) else Some s) = Some t"
  show "n \<noteq> PosInf"
  proof (cases "js_gt n (Num 0)")
    case True
    with eq IH have "js_dec n \<noteq> PosInf" by simp
    then show ?thesis by (cases n) auto
  next
    case False
    then show ?thesis by (auto simp: js_gt_def)
  qed
qed

lemma mutate_loop_PosInf: "mutate_loop R this q PosInf s = None"
  using mutate_loop_PosInf_aux [of R this q PosInf s] by (cases "mutate_loop R this q PosInf s") auto

lemma mutate_loop_stuck_aux:
  assumes "mutate_loop R this q n s = Some t"
  shows "n \<noteq> Num (2 ^ 54)"
proof (rule mutate_loop.raw_induct [where P = "\<lambda>R this q n s t. n \<noteq> Num (2 ^ 54)", OF _ assms])
  fix f R this q n s t
  assume IH: "\<And>R this q n s t. f R this q n s = Some t \<Longrightarrow> n \<noteq> Num (2 ^ 54)"
    and eq: "(if js_gt n (Num 0) then f R this q (js_dec n) (mutation_attempt R this q s) else Some s) = Some t"
  show "n \<noteq> Num (2 ^ 54)"
  proof (cases "js_gt n (Num 0)")
    case True
    with eq IH have "js_dec n \<noteq> Num (2 ^ 54)" by simp
    then show ?thesis by (cases n) auto
  next
    case False
    then show ?thesis by (auto simp: js_gt_def)
  qed
qed

lemma mutate_loop_stuck: "mutate_loop R this q (Num (2 ^ 54)) s = None"
  using mutate_loop_stuck_aux [of R this q "Num (2 ^ 54)" s]
  by (cases "mutate_loop R this q (Num (2 ^ 54)) s") auto

lemma mutate_loop_nat:
  "real n \<le> 2 ^ 53 \<Longrightarrow>
   mutate_loop R this q (Num (real n)) s = Some ((mutation_attempt R this q ^^ n) s)"
proof (induction n arbitrary: s)
  case 0
  show ?case by (subst mutate_loop.simps) (simp add: js_gt_def)
next
  case (Suc n)
  have d: "js_dec (Num (real (Suc n))) = Num (real n)" using Suc.prems by simp
  have g: "js_gt (Num (real (Suc n))) (Num 0)" by (simp add: js_gt_def)
  have "mutate_loop R this q (Num (real (Suc n))) s =
        mutate_loop R this q (Num (real n)) (mutation_attempt R this q s)"
    by (subst mutate_loop.simps) (simp only: g d if_True)
  also have "\<dots> = Some ((mutation_attempt R this q ^^ n) (mutation_attempt R this q s))"
    using Suc.prems by (intro Suc.IH) simp
  finally show ?case by (simp add: funpow_swap1)
qed

lemma mutation_plan_Num:
  "mutation_plan (Num p) = (Num (real (attempts p)), attempt_prob p)"
proof (cases "1 \<le> p")
  case True
  then have "0 \<le> \<lfloor>p\<rfloor>" by simp
  then have "real (nat \<lfloor>p\<rfloor>) = of_int \<lfloor>p\<rfloor>" by simp
  then show ?thesis using True
    by (simp add: mutation_plan_def attempts_def attempt_prob_def frac_def Let_def)
next
  case False
  then show ?thesis by (simp add: mutation_plan_def attempts_def attempt_prob_def)
qed

lemma attempts_le: "p \<le> 2 ^ 53 \<Longrightarrow> real (attempts p) \<le> 2 ^ 53"
proof (cases "1 \<le> p")
  case True
  assume "p \<le> 2 ^ 53"
  have "real (nat \<lfloor>p\<rfloor>) = of_int \<lfloor>p\<rfloor>" using True by simp
  also have "\<dots> \<le> p" by simp
  finally show ?thesis using True \<open>p \<le> 2 ^ 53\<close> by (simp add: attempts_def)
next
  case False
  then show ?thesis by (simp add: attempts_def)
qed

lemma Chromosome_mutate_unfold:
  "Chromosome_mutate R this mp ap s =
     (case mutate_loop R this (snd (mutation_plan (or_default mp mutation_probability)))
             (fst (mutation_plan (or_default mp mutation_probability))) s of
        None \<Rightarrow> None
      | Some s1 \<Rightarrow>
          Some (this, if js_lt (Num (R (draws s1))) (or_default ap addition_probability)
                      then add_gene R this (s1\<lparr>draws := Suc (draws s1)\<rparr>)
                      else s1\<lparr>draws := Suc (draws s1)\<rparr>))"
  by (simp add: Chromosome_mutate_def Let_def case_prod_beta random_def split: option.split)

lemma Chromosome_mutate_Num:
  assumes "or_default mp mutation_probability = Num p" and "p \<le> 2 ^ 53"
  shows "Chromosome_mutate R this mp ap s =
         Some (this, addition_step R this (or_default ap addition_probability)
                       ((mutation_attempt R this (attempt_prob p) ^^ attempts p) s))"
  unfolding Chromosome_mutate_unfold assms(1) mutation_plan_Num fst_conv snd_conv
    mutate_loop_nat [OF attempts_le [OF assms(2)]]
  by (simp add: addition_step_def)

lemma Chromosome_mutate_PosInf:
  assumes "or_default mp mutation_probability = PosInf"
  shows "Chromosome_mutate R this mp ap s = None"
proof -
  have "mutation_plan PosInf = (PosInf, NaN)" by (simp add: mutation_plan_def)
  then show ?thesis
    unfolding Chromosome_mutate_unfold assms by (simp add: mutate_loop_PosInf)
qed

lemma Chromosome_mutate_stuck:
  assumes "or_default mp mutation_probability = Num (2 ^ 54)"
  shows "Chromosome_mutate R this mp ap s = None"
proof -
  have "mutation_plan (Num (2 ^ 54)) = (Num (2 ^ 54), Num 1)"
    by (simp add: mutation_plan_def)
  then show ?thesis
    unfolding Chromosome_mutate_unfold assms
    using mutate_loop_stuck [of R this "Num 1" s] by simp
qed

lemma mutate_huge_probability_diverges:
  "Chromosome_mutate R c (Some (Num (2 ^ 54))) ap s = None"
  by (rule Chromosome_mutate_stuck) (simp add: or_default_def)

subsection \<open>What a mutation changes\<close>

lemma flip_bit_same_but: "same_but (chroms s this) s (flip_bit R this s)"
  by (simp add: flip_bit_def random_def array_set_def same_but_def Let_def length_typed_set)

lemma mutation_attempt_same_but: "same_but (chroms s this) s (mutation_attempt R this q s)"
proof -
  have "same_but (chroms s this) (s\<lparr>draws := Suc (draws s)\<rparr>) (flip_bit R this (s\<lparr>draws := Suc (draws s)\<rparr>))"
    using flip_bit_same_but [of "s\<lparr>draws := Suc (draws s)\<rparr>" this R] by simp
  moreover have "same_but (chroms s this) s (s\<lparr>draws := Suc (draws s)\<rparr>)"
    by (simp add: same_but_def)
  ultimately show ?thesis
    by (auto simp: mutation_attempt_def random_def intro: same_but_trans)
qed

lemma mutate_loop_same_but:
  assumes "mutate_loop R this q n s = Some t"
  shows "same_but (chroms s this) s t"
proof (rule mutate_loop.raw_induct [where P = "\<lambda>R this q n s t. same_but (chroms s this) s t", OF _ assms])
  fix f R this q n s t
  assume IH: "\<And>R this q n s t. f R this q n s = Some t \<Longrightarrow> same_but (chroms s this) s t"
    and eq: "(if js_gt n (Num 0) then f R this q (js_dec n) (mutation_attempt R this q s) else Some s) = Some t"
  show "same_but (chroms s this) s t"
  proof (cases "js_gt n (Num 0)")
    case True
    with eq IH have "same_but (chroms (mutation_attempt R this q s) this) (mutation_attempt R this q s) t"
      by simp
    moreover have m: "same_but (chroms s this) s (mutation_attempt R this q s)"
      by (rule mutation_attempt_same_but)
    moreover from m have "chroms (mutation_attempt R this q s) = chroms s"
      by (simp add: same_but_def)
    ultimately show ?thesis by (auto intro: same_but_trans)
  next
    case False
    with eq show ?thesis by (simp add: same_but_refl)
  qed
qed

lemma add_gene_eq:
  assumes "valid_chrom s this"
  shows "add_gene R this s =
     s\<lparr>arrays := (arrays s)(narrays s := genes s this @ [random_gene R (draws s)]),
       narrays := Suc (narrays s),
       chroms := (chroms s)(this := narrays s),
       draws := Suc (draws s)\<rparr>"
proof -
  have ne: "chroms s this \<noteq> narrays s" using assms by (simp add: valid_chrom_def)
  have u: "typed_set (G @ [0]) (int (length G)) v = G @ [v]" for v and G :: "gene list"
    by (simp add: typed_set_def)
  show ?thesis
    using ne
    by (simp add: add_gene_def new_Uint32Array_def array_set_all_def random_def array_set_def
        genes_def Let_def drop_replicate_Cons u random_gene_def)
qed

lemma Chromosome_mutate_mutated:
  assumes v: "valid_chrom s this"
    and m: "Chromosome_mutate R this mp ap s = Some (c, t)"
  shows "c = this" and "mutated this s t"
proof -
  define q n where "q = snd (mutation_plan (or_default mp mutation_probability))"
    and "n = fst (mutation_plan (or_default mp mutation_probability))"
  obtain s1 where l: "mutate_loop R this q n s = Some s1"
    using m unfolding Chromosome_mutate_unfold q_def n_def
    by (cases "mutate_loop R this (snd (mutation_plan (or_default mp mutation_probability)))
             (fst (mutation_plan (or_default mp mutation_probability))) s") simp_all
  have r: "(c, t) = (this, if js_lt (Num (R (draws s1))) (or_default ap addition_probability)
                        then add_gene R this (s1\<lparr>draws := Suc (draws s1)\<rparr>)
                        else s1\<lparr>draws := Suc (draws s1)\<rparr>)"
    using m l unfolding Chromosome_mutate_unfold q_def n_def by simp
  show "c = this" using r by simp
  have sb: "same_but (chroms s this) s s1" using l by (rule mutate_loop_same_but)
  define s2 where "s2 = s1\<lparr>draws := Suc (draws s1)\<rparr>"
  have sb2: "same_but (chroms s this) s s2" using sb by (simp add: same_but_def s2_def)
  have v2: "valid_chrom s2 this" using v sb2 by (simp add: valid_chrom_def same_but_def)
  have len2: "Chromosome_length s2 this = Chromosome_length s this"
    using sb2 by (simp add: Chromosome_length_def genes_def same_but_def)
  have m2: "mutated this s s2"
    using sb2 v2 len2 by (simp add: mutated_def same_but_def)
  have m3: "mutated this s (add_gene R this s2)"
    unfolding add_gene_eq [OF v2]
    using sb2 v2 len2
    by (auto simp: mutated_def same_but_def valid_chrom_def Chromosome_length_def genes_def)
  have "t = s2 \<or> t = add_gene R this s2"
    using r by (simp add: s2_def split: if_splits)
  then show "mutated this s t"
    using m2 m3 by blast
qed

lemma mutation_attempt_certain:
  "R (draws s) < 1 \<Longrightarrow>
   mutation_attempt R c (Num 1) s = flip_bit R c (s\<lparr>draws := Suc (draws s)\<rparr>)"
  by (simp add: mutation_attempt_def random_def)

lemma mutate_whole_number:
  assumes "unit_interval R" and "1 \<le> n" and "real n \<le> 2 ^ 53"
  shows "Chromosome_mutate R c (Some (Num (real n))) (Some (Num 0)) s =
         Some (c, (((\<lambda>t. flip_bit R c (t\<lparr>draws := Suc (draws t)\<rparr>)) ^^ n) s)
                    \<lparr>draws := Suc (draws (((\<lambda>t. flip_bit R c (t\<lparr>draws := Suc (draws t)\<rparr>)) ^^ n) s))\<rparr>)"
proof -
  have f: "mutation_attempt R c (Num 1) = (\<lambda>t. flip_bit R c (t\<lparr>draws := Suc (draws t)\<rparr>))"
    using assms(1) by (intro ext mutation_attempt_certain) (simp add: unit_interval_def)
  have a: "attempts (real n) = n" using assms(2) by (simp add: attempts_def)
  have q: "attempt_prob (real n) = Num 1" using assms(2) by (simp add: attempt_prob_def)
  have n: "\<not> R k < 0" for k using assms(1) by (simp add: unit_interval_def not_less)
  show ?thesis
    using Chromosome_mutate_Num [of "Some (Num (real n))" "real n" R c "Some (Num 0)" s] assms(3)
    by (simp add: or_default_def a q f addition_step_def n)
qed

subsection \<open>The genes after a mutation\<close>

lemma flip_bit_genes:
  "genes (flip_bit R c s) c =
     flip_gene (genes s c) \<lfloor>double (R (draws s) * real (length (genes s c)))\<rfloor>
       \<lfloor>double (R (draws s + 1) * 32)\<rfloor>"
  "draws (flip_bit R c s) = draws s + 2"
  by (simp_all add: flip_bit_def random_def array_set_def array_get_def typed_set_def typed_get_def
      genes_def flip_gene_def Let_def)

lemma mutation_attempt_genes:
  "(genes (mutation_attempt R c q s) c, draws (mutation_attempt R c q s)) =
     attempt_genes R q (genes s c, draws s)"
proof (cases "js_lt (Num (R (draws s))) q")
  case True
  have g: "genes (s\<lparr>draws := Suc (draws s)\<rparr>) c = genes s c" by (simp add: genes_def)
  show ?thesis
    using True flip_bit_genes [of R c "s\<lparr>draws := Suc (draws s)\<rparr>"]
    by (simp add: mutation_attempt_def random_def attempt_genes_def g)
next
  case False
  then show ?thesis
    by (simp add: mutation_attempt_def random_def attempt_genes_def genes_def)
qed

lemma mutation_attempts_genes:
  "(genes ((mutation_attempt R c q ^^ n) s) c, draws ((mutation_attempt R c q ^^ n) s)) =
     (attempt_genes R q ^^ n) (genes s c, draws s)"
  by (induction n) (simp_all add: mutation_attempt_genes)

lemma mutation_attempts_same_but:
  "same_but (chroms s c) s ((mutation_attempt R c q ^^ n) s)"
proof (induction n)
  case 0
  show ?case by (simp add: same_but_refl)
next
  case (Suc n)
  have "chroms ((mutation_attempt R c q ^^ n) s) = chroms s" using Suc by (simp add: same_but_def)
  then have "same_but (chroms s c) ((mutation_attempt R c q ^^ n) s)
     (mutation_attempt R c q ((mutation_attempt R c q ^^ n) s))"
    using mutation_attempt_same_but [of "(mutation_attempt R c q ^^ n) s" c R q] by simp
  with Suc show ?case by (auto intro: same_but_trans)
qed

lemma addition_step_genes:
  assumes "valid_chrom s c"
  shows "(genes (addition_step R c ap s) c, draws (addition_step R c ap s)) =
           add_genes R ap (genes s c, draws s)"
proof (cases "js_lt (Num (R (draws s))) ap")
  case True
  have v: "valid_chrom (s\<lparr>draws := Suc (draws s)\<rparr>) c" using assms by (simp add: valid_chrom_def)
  show ?thesis
    using True by (simp add: addition_step_def add_gene_eq [OF v] add_genes_def genes_def)
next
  case False
  then show ?thesis by (simp add: addition_step_def add_genes_def genes_def)
qed

lemma Chromosome_mutate_genes:
  assumes "valid_chrom s c" and "p0 \<le> 2 ^ 53"
    and "Chromosome_mutate R c (Some (Num p0)) (Some ap) s = Some (cc, t)"
  shows "(genes t c, draws t) = mutate_genes R p0 ap (genes s c, draws s)"
proof -
  define s1 where "s1 = (mutation_attempt R c (attempt_prob p0) ^^ attempts p0) s"
  have t: "t = addition_step R c ap s1"
    using assms(3) Chromosome_mutate_Num [of "Some (Num p0)" p0 R c "Some ap" s] assms(2)
    by (simp add: or_default_def s1_def)
  have "same_but (chroms s c) s s1" unfolding s1_def by (rule mutation_attempts_same_but)
  then have v1: "valid_chrom s1 c" using assms(1) by (simp add: valid_chrom_def same_but_def)
  show ?thesis
    unfolding t addition_step_genes [OF v1] mutate_genes_def
    by (simp add: s1_def mutation_attempts_genes)
qed

subsection \<open>The Chromosome without genes\<close>

lemma flip_bit_empty:
  assumes "genes s this = []"
  shows "flip_bit R this s = s\<lparr>draws := draws s + 2\<rparr>"
proof -
  have "(arrays s)(chroms s this := []) = arrays s"
    using assms by (auto simp: genes_def)
  then show ?thesis
    using assms by (simp add: flip_bit_def random_def array_set_def typed_set_def genes_def Let_def)
qed

lemma mutation_attempt_empty:
  assumes "genes s this = []"
  shows "\<exists>d. mutation_attempt R this q s = s\<lparr>draws := d\<rparr>"
proof -
  have "genes (s\<lparr>draws := Suc (draws s)\<rparr>) this = []" using assms by (simp add: genes_def)
  from flip_bit_empty [OF this, of R] show ?thesis
    by (auto simp: mutation_attempt_def random_def)
qed

lemma mutation_attempts_empty:
  assumes "genes s this = []"
  shows "\<exists>d. (mutation_attempt R this q ^^ n) s = s\<lparr>draws := d\<rparr>"
proof (induction n)
  case 0
  have "s = s\<lparr>draws := draws s\<rparr>" by simp
  then show ?case by (metis funpow_0)
next
  case (Suc n)
  then obtain d where d: "(mutation_attempt R this q ^^ n) s = s\<lparr>draws := d\<rparr>" by blast
  have "genes (s\<lparr>draws := d\<rparr>) this = []" using assms by (simp add: genes_def)
  from mutation_attempt_empty [OF this, of R q]
  obtain d' where "mutation_attempt R this q (s\<lparr>draws := d\<rparr>) = s\<lparr>draws := d'\<rparr>" by auto
  then show ?case by (auto simp: d)
qed

text \<open>
  Claim C10, as amended. For a finite mutation probability \<open>p\<close> of at most \<open>2^53\<close>,
  \<open>mutate(p, 0)\<close> on a Chromosome without genes returns the Chromosome, and the store is as
  before but for the count of random draws: the gene array is still empty, every write of an
  attempt that fires falls outside it and is ignored, and no gene is added.
\<close>

theorem mutate_empty_chromosome:
  assumes "valid_chrom s c" and "genes s c = []"
    and "unit_interval R" and "p \<le> 2 ^ 53"
  shows "\<exists>d. Chromosome_mutate R c (Some (Num p)) (Some (Num 0)) s = Some (c, s\<lparr>draws := d\<rparr>) \<and>
             genes (s\<lparr>draws := d\<rparr>) c = []"
proof -
  obtain d where d: "(mutation_attempt R c (attempt_prob p) ^^ attempts p) s = s\<lparr>draws := d\<rparr>"
    using mutation_attempts_empty [OF assms(2)] by blast
  have "\<not> R d < 0" using assms(3) by (simp add: unit_interval_def not_less)
  then have "addition_step R c (Num 0) (s\<lparr>draws := d\<rparr>) = s\<lparr>draws := Suc d\<rparr>"
    by (simp add: addition_step_def)
  then have "Chromosome_mutate R c (Some (Num p)) (Some (Num 0)) s = Some (c, s\<lparr>draws := Suc d\<rparr>)"
    using Chromosome_mutate_Num [of "Some (Num p)" p R c "Some (Num 0)" s] assms(4)
    by (simp add: or_default_def d)
  moreover have "genes (s\<lparr>draws := Suc d\<rparr>) c = []" using assms(2) by (simp add: genes_def)
  ultimately show ?thesis by blast
qed

theorem mutate_empty_chromosome_witness:
  "valid_chrom heapN 0 \<and> genes heapN 0 = [] \<and> unit_interval (\<lambda>_. 1 / 2) \<and> (3 :: real) \<le> 2 ^ 53 \<and>
   (\<exists>d. Chromosome_mutate (\<lambda>_. 1 / 2) 0 (Some (Num 3)) (Some (Num 0)) heapN
          = Some (0, heapN\<lparr>draws := d\<rparr>))"
proof -
  have u: "unit_interval (\<lambda>_. 1 / 2)" by (simp add: unit_interval_def)
  have b: "(3 :: real) \<le> 2 ^ 53" by simp
  from mutate_empty_chromosome [OF heapN_facts u b]
  show ?thesis using heapN_facts u by auto
qed

theorem mutate_infinite_probability_counterexample:
  "valid_chrom heapN 0 \<and> genes heapN 0 = [] \<and> js_ge PosInf (Num 0) \<and>
   Chromosome_mutate (\<lambda>_. 1 / 2) 0 (Some PosInf) (Some (Num 0)) heapN = None"
  using heapN_facts by (simp add: Chromosome_mutate_PosInf or_default_def)

subsection \<open>A probability above 1 with a fractional part\<close>

lemma heapE_mutate_attempt:
  "mutation_attempt (\<lambda>_. 3 / 4) 0 (Num (1 / 2)) heapE = heapE\<lparr>draws := 1\<rparr>"
  by (simp add: mutation_attempt_def random_def heapE_def)

text \<open>
  Claim C1 says that \<open>mutate(p, 0)\<close> with \<open>p = 1.5\<close> flips one bit for certain (and a second one
  with probability one half). The program at that input, on the Chromosome with the one gene 5
  and with every \<open>Math.random()\<close> returning 0.75: the single attempt is made with probability
  0.5, does not fire, and no bit is flipped. (What the program does for every finite
  probability is lemma \<open>Chromosome_mutate_Num\<close>; for a whole number \<open>n\<close> of at least 1 it
  flips \<open>n\<close> bits and adds no gene: lemma \<open>mutate_whole_number\<close>.)
\<close>

theorem mutate_fraction_no_guaranteed_flip:
  "Chromosome_mutate (\<lambda>_. 3 / 4) 0 (Some (Num (3 / 2))) (Some (Num 0)) heapE
     = Some (0, heapE\<lparr>draws := 2\<rparr>) \<and>
   genes (heapE\<lparr>draws := 2\<rparr>) 0 = genes heapE 0"
proof -
  have f: "\<lfloor>3 / 2 :: real\<rfloor> = 1" by linarith
  have a: "attempts (3 / 2) = 1" by (simp add: attempts_def f)
  have q: "attempt_prob (3 / 2) = Num (1 / 2)" by (simp add: attempt_prob_def frac_def f)
  have "Chromosome_mutate (\<lambda>_. 3 / 4) 0 (Some (Num (3 / 2))) (Some (Num 0)) heapE =
        Some (0, addition_step (\<lambda>_. 3 / 4) 0 (Num 0) (heapE\<lparr>draws := 1\<rparr>))"
    using Chromosome_mutate_Num [of "Some (Num (3 / 2))" "3 / 2" "\<lambda>_. 3 / 4" 0 "Some (Num 0)" heapE]
    by (simp add: or_default_def a q heapE_mutate_attempt)
  then show ?thesis by (simp add: addition_step_def genes_def)
qed

section \<open>Properties of the construction and the copy of a Genome\<close>

lemma new_chromosomes_facts:
  assumes "new_chromosomes R lengths s = (cs, s')"
  shows "preserves s s' \<and> list_all (valid_chrom s') cs \<and> map (Chromosome_length s') cs = lengths"
  using assms
proof (induction lengths arbitrary: s cs s')
  case Nil
  then show ?case by (simp add: preserves_refl)
next
  case (Cons len lengths)
  obtain c s1 where n: "Chromosome_new R len s = (c, s1)" by (cases "Chromosome_new R len s")
  obtain cs1 s2 where r: "new_chromosomes R lengths s1 = (cs1, s2)"
    by (cases "new_chromosomes R lengths s1")
  have e: "cs = c # cs1" "s' = s2" using Cons.prems by (simp_all add: n r)
  note f = Chromosome_new_facts [OF n]
  note IH = Cons.IH [OF r]
  have "preserves s s2" using f(1) IH by (blast intro: preserves_trans)
  moreover have "valid_chrom s2 c" using IH f(2) by (blast intro: preserves_valid)
  moreover have "Chromosome_length s2 c = len"
    using IH f(2,3) preserves_length [of s1 s2 c] by simp
  ultimately show ?case using IH by (simp add: e)
qed

lemma Genome_new_well_shaped:
  assumes "Genome_new R lengths s = (g, s')"
  shows "well_shaped s' g" and "valid_genome s' g" and "preserves s s'"
proof -
  obtain cs where n: "new_chromosomes R lengths s = (cs, s')"
    and g: "g = \<lparr>chromosomes = cs, shape = map Some lengths\<rparr>"
    using assms by (auto simp: Genome_new_def split: prod.splits)
  note f = new_chromosomes_facts [OF n]
  have "map (\<lambda>c. Some (Chromosome_length s' c)) cs = map Some (map (Chromosome_length s') cs)"
    by simp
  then show "well_shaped s' g" using f by (simp add: well_shaped_def g)
  show "valid_genome s' g" using f by (simp add: valid_genome_def g)
  show "preserves s s'" using f by simp
qed

lemma Genome_new_shape:
  assumes "Genome_new R lengths s = (g, s')"
  shows "shape g = map Some lengths" and "length (chromosomes g) = length lengths"
proof -
  obtain cs where n: "new_chromosomes R lengths s = (cs, s')"
    and g: "g = \<lparr>chromosomes = cs, shape = map Some lengths\<rparr>"
    using assms by (auto simp: Genome_new_def split: prod.splits)
  show "shape g = map Some lengths" by (simp add: g)
  have "length (map (Chromosome_length s') cs) = length lengths"
    using new_chromosomes_facts [OF n] by simp
  then show "length (chromosomes g) = length lengths" by (simp add: g)
qed

lemma copy_chromosomes_facts:
  assumes "copy_chromosomes R cs s = (cs', s')" and "list_all (valid_chrom s) cs"
  shows "preserves s s' \<and> list_all (valid_chrom s') cs' \<and>
         map (genes s') cs' = map (genes s) cs"
  using assms
proof (induction cs arbitrary: s cs' s')
  case Nil
  then show ?case by (simp add: preserves_refl)
next
  case (Cons c cs)
  have vc: "valid_chrom s c" and vcs: "list_all (valid_chrom s) cs" using Cons.prems(2) by simp_all
  obtain c1 s1 where n: "Chromosome_copy R c s = (c1, s1)" by (cases "Chromosome_copy R c s")
  obtain cs1 s2 where r: "copy_chromosomes R cs s1 = (cs1, s2)"
    by (cases "copy_chromosomes R cs s1")
  have e: "cs' = c1 # cs1" "s' = s2" using Cons.prems(1) by (simp_all add: n r)
  note f = Chromosome_copy_facts [OF vc n]
  have v1: "list_all (valid_chrom s1) cs" using preserves_valid_all [OF f(1) vcs] .
  note IH = Cons.IH [OF r v1]
  have "preserves s s2" using f(1) IH by (blast intro: preserves_trans)
  moreover have "valid_chrom s2 c1" using IH f(2) by (blast intro: preserves_valid)
  moreover have "genes s2 c1 = genes s c"
    using IH f(2,3) preserves_genes [of s1 s2 c1] by simp
  moreover have "map (genes s1) cs = map (genes s) cs"
    using vcs f(1) by (auto simp: list_all_iff preserves_genes)
  ultimately show ?case using IH by (simp add: e)
qed

lemma Genome_copy_well_shaped:
  assumes "valid_genome s g" and "Genome_copy R g s = (g', s')"
  shows "well_shaped s' g'" and "valid_genome s' g'" and "preserves s s'"
    and "map (genes s') (chromosomes g') = map (genes s) (chromosomes g)"
proof -
  obtain cs where n: "copy_chromosomes R (chromosomes g) s = (cs, s')"
    and g: "g' = \<lparr>chromosomes = cs, shape = map (\<lambda>c. Some (Chromosome_length s' c)) (chromosomes g)\<rparr>"
    using assms(2) by (auto simp: Genome_copy_def split: prod.splits)
  note f = copy_chromosomes_facts [OF n assms(1) [unfolded valid_genome_def]]
  have p: "preserves s s'" using f by simp
  have "map (Chromosome_length s') (chromosomes g) = map (Chromosome_length s) (chromosomes g)"
    using assms(1) p by (auto simp: valid_genome_def list_all_iff preserves_length)
  also have "\<dots> = map length (map (genes s) (chromosomes g))"
    by (simp add: Chromosome_length_def)
  also have "\<dots> = map length (map (genes s') cs)" using f by simp
  also have "\<dots> = map (Chromosome_length s') cs" by (simp add: Chromosome_length_def)
  finally have "map (Chromosome_length s') (chromosomes g) = map (Chromosome_length s') cs" .
  then have "map (\<lambda>c. Some (Chromosome_length s' c)) (chromosomes g) = map (\<lambda>c. Some (Chromosome_length s' c)) cs"
    by (metis (no_types, lifting) map_map comp_apply map_eq_conv)
  then show "well_shaped s' g'" by (simp add: well_shaped_def g)
  show "valid_genome s' g'" using f by (simp add: valid_genome_def g)
  show "preserves s s'" by fact
  show "map (genes s') (chromosomes g') = map (genes s) (chromosomes g)" using f by (simp add: g)
qed

section \<open>Properties of Genome.spawnWith\<close>

lemma spawn_loop_done:
  "\<not> i < length (chromosomes this) \<Longrightarrow>
   Genome_spawn_loop R this other mp ap i (cs, sh, s) = Some (cs, sh, s)"
  by (subst Genome_spawn_loop.simps) simp

lemma spawn_loop_skip:
  "i < length (chromosomes this) \<Longrightarrow> \<not> i < length (chromosomes other) \<Longrightarrow>
   Genome_spawn_loop R this other mp ap i (cs, sh, s) =
   Genome_spawn_loop R this other mp ap (Suc i) (cs, sh, s)"
  by (subst Genome_spawn_loop.simps) simp

lemma spawn_loop_step:
  "i < length (chromosomes this) \<Longrightarrow> i < length (chromosomes other) \<Longrightarrow>
   Chromosome_spawnWith R (chromosomes this ! i) (chromosomes other ! i) s = (c, s1) \<Longrightarrow>
   Chromosome_mutate R c (Some mp) (Some ap) s1 = Some (cc, s2) \<Longrightarrow>
   Genome_spawn_loop R this other mp ap i (cs, sh, s) =
   Genome_spawn_loop R this other mp ap (Suc i)
     (cs @ [cc], js_array_set sh i (Chromosome_length s2 cc), s2)"
  by (subst Genome_spawn_loop.simps) simp

lemma spawn_loop_diverge:
  "i < length (chromosomes this) \<Longrightarrow> i < length (chromosomes other) \<Longrightarrow>
   Chromosome_spawnWith R (chromosomes this ! i) (chromosomes other ! i) s = (c, s1) \<Longrightarrow>
   Chromosome_mutate R c (Some mp) (Some ap) s1 = None \<Longrightarrow>
   Genome_spawn_loop R this other mp ap i (cs, sh, s) = None"
  by (subst Genome_spawn_loop.simps) simp

lemma spawn_loop_returns:
  assumes "p \<le> 2 ^ 53"
  shows "\<exists>r. Genome_spawn_loop R this other (Num p) ap i (cs, sh, s) = Some r"
proof (induction "length (chromosomes this) - i" arbitrary: i cs sh s)
  case 0
  then show ?case by (simp add: spawn_loop_done)
next
  case (Suc n)
  then have i: "i < length (chromosomes this)" and n: "n = length (chromosomes this) - Suc i"
    by simp_all
  show ?case
  proof (cases "i < length (chromosomes other)")
    case False
    with i Suc.hyps(1) [OF n] show ?thesis by (simp add: spawn_loop_skip)
  next
    case True
    obtain c s1 where sp: "Chromosome_spawnWith R (chromosomes this ! i) (chromosomes other ! i) s = (c, s1)"
      by (cases "Chromosome_spawnWith R (chromosomes this ! i) (chromosomes other ! i) s")
    obtain s2 where mu: "Chromosome_mutate R c (Some (Num p)) (Some ap) s1 = Some (c, s2)"
      using Chromosome_mutate_Num [of "Some (Num p)" p R c "Some ap" s1] assms
      by (simp add: or_default_def)
    show ?thesis
      unfolding spawn_loop_step [OF i True sp mu] by (rule Suc.hyps(1) [OF n])
  qed
qed

lemma spawn_mutate_step:
  assumes va: "valid_chrom s a" and vb: "valid_chrom s b"
    and sp: "Chromosome_spawnWith R a b s = (c, s1)"
    and mu: "Chromosome_mutate R c mp ap s1 = Some (cc, s2)"
  shows "cc = nchroms s" and "preserves s s2" and "valid_chrom s2 cc" and "\<not> valid_chrom s cc"
proof -
  obtain d nd where dom: "dominance s a b = (d, nd)" by (cases "dominance s a b")
  note ch = Chromosome_spawnWith_child [OF va vb dom sp]
  have p1: "preserves s s1" using Chromosome_spawnWith_preserves [OF va vb, of R] sp by simp
  note m = Chromosome_mutate_mutated [OF ch(2) mu]
  show "cc = nchroms s" using m(1) ch(1) by simp
  show "preserves s s2"
    using p1 _ _ m(2)
  proof (rule mutated_preserves)
    show "\<not> c < nchroms s" by (simp add: ch(1))
    show "\<not> chroms s1 c < narrays s" by (simp add: ch(4))
  qed
  show "valid_chrom s2 cc" using m by (simp add: mutated_def)
  show "\<not> valid_chrom s cc" using m(1) ch(1) by (simp add: valid_chrom_def)
qed

lemma spawn_loop_facts:
  assumes "Genome_spawn_loop R this other mp ap i (cs, sh, s) = Some (cs', sh', s')"
    and "list_all (valid_chrom s) (chromosomes this)"
    and "list_all (valid_chrom s) (chromosomes other)"
  shows "preserves s s' \<and>
         length cs' = length cs + (min (length (chromosomes this)) (length (chromosomes other)) - i) \<and>
         (\<exists>new. cs' = cs @ new \<and> list_all (\<lambda>c. \<not> valid_chrom s c \<and> valid_chrom s' c) new) \<and>
         (length (chromosomes this) \<le> length sh \<longrightarrow>
            length sh' = length sh \<and>
            (\<forall>j<length sh. j < i \<or> min (length (chromosomes this)) (length (chromosomes other)) \<le> j
                \<longrightarrow> sh' ! j = sh ! j))"
  using assms
proof (induction "length (chromosomes this) - i" arbitrary: i cs sh s)
  case 0
  then have "\<not> i < length (chromosomes this)" by simp
  with 0 show ?case by (simp add: spawn_loop_done preserves_refl)
next
  case (Suc n)
  then have i: "i < length (chromosomes this)" and n: "n = length (chromosomes this) - Suc i"
    by simp_all
  show ?case
  proof (cases "i < length (chromosomes other)")
    case False
    with i Suc.prems(1) have "Genome_spawn_loop R this other mp ap (Suc i) (cs, sh, s) = Some (cs', sh', s')"
      by (simp add: spawn_loop_skip)
    from Suc.hyps(1) [OF n this Suc.prems(2,3)] False show ?thesis
      by (auto simp: min_def)
  next
    case True
    define a b where "a = chromosomes this ! i" and "b = chromosomes other ! i"
    have va: "valid_chrom s a" and vb: "valid_chrom s b"
      using Suc.prems(2,3) i True by (simp_all add: a_def b_def list_all_length)
    obtain c s1 where sp: "Chromosome_spawnWith R a b s = (c, s1)"
      by (cases "Chromosome_spawnWith R a b s")
    obtain cc s2 where mu: "Chromosome_mutate R c (Some mp) (Some ap) s1 = Some (cc, s2)"
    proof (cases "Chromosome_mutate R c (Some mp) (Some ap) s1")
      case None
      with Suc.prems(1) show ?thesis
        using spawn_loop_diverge [OF i True sp [unfolded a_def b_def] None] by simp
    next
      case (Some r)
      with that show ?thesis by (cases r) auto
    qed
    note st = spawn_mutate_step [OF va vb sp mu]
    have rec: "Genome_spawn_loop R this other mp ap (Suc i)
                 (cs @ [cc], js_array_set sh i (Chromosome_length s2 cc), s2) = Some (cs', sh', s')"
      using Suc.prems(1) spawn_loop_step [OF i True sp [unfolded a_def b_def] mu] by simp
    have v2: "list_all (valid_chrom s2) (chromosomes this)" "list_all (valid_chrom s2) (chromosomes other)"
      using preserves_valid_all [OF st(2)] Suc.prems(2,3) by simp_all
    note IH = Suc.hyps(1) [OF n rec v2]
    have p: "preserves s s'" using st(2) IH by (blast intro: preserves_trans)
    have l: "length cs' = length cs + (min (length (chromosomes this)) (length (chromosomes other)) - i)"
      using IH i True by simp
    obtain new where new: "cs' = (cs @ [cc]) @ new"
      and newv: "list_all (\<lambda>c. \<not> valid_chrom s2 c \<and> valid_chrom s' c) new"
      using IH by blast
    have p2: "preserves s2 s'" using IH by blast
    have "list_all (\<lambda>c. \<not> valid_chrom s c \<and> valid_chrom s' c) (cc # new)"
      using newv st(3,4) preserves_valid [OF p2] preserves_valid [OF st(2)]
      by (auto simp: list_all_iff)
    then have f: "\<exists>new. cs' = cs @ new \<and> list_all (\<lambda>c. \<not> valid_chrom s c \<and> valid_chrom s' c) new"
      using new by (intro exI [of _ "cc # new"]) simp
    have sh: "length (chromosomes this) \<le> length sh \<longrightarrow>
            length sh' = length sh \<and>
            (\<forall>j<length sh. j < i \<or> min (length (chromosomes this)) (length (chromosomes other)) \<le> j
                \<longrightarrow> sh' ! j = sh ! j)"
    proof
      assume le: "length (chromosomes this) \<le> length sh"
      then have ish: "i < length sh" using i by simp
      have len: "length (js_array_set sh i (Chromosome_length s2 cc)) = length sh"
        using ish by (rule length_js_array_set)
      from IH le len have 1: "length sh' = length sh"
        and 2: "\<forall>j<length sh. j < Suc i \<or> min (length (chromosomes this)) (length (chromosomes other)) \<le> j
                \<longrightarrow> sh' ! j = js_array_set sh i (Chromosome_length s2 cc) ! j"
        by simp_all
      have "sh' ! j = sh ! j" if "j < length sh"
        and "j < i \<or> min (length (chromosomes this)) (length (chromosomes other)) \<le> j" for j
      proof -
        have "j \<noteq> i" using that(2) i True by auto
        moreover have "sh' ! j = js_array_set sh i (Chromosome_length s2 cc) ! j"
          using 2 that by auto
        ultimately show ?thesis using ish by (simp add: nth_js_array_set)
      qed
      with 1 show "length sh' = length sh \<and>
            (\<forall>j<length sh. j < i \<or> min (length (chromosomes this)) (length (chromosomes other)) \<le> j
                \<longrightarrow> sh' ! j = sh ! j)" by blast
    qed
    show ?thesis using p l f sh by blast
  qed
qed

lemma spawn_loop_shape:
  assumes "Genome_spawn_loop R this other mp ap i (cs, sh, s) = Some (cs', sh', s')"
    and "list_all (valid_chrom s) (chromosomes this)"
    and "list_all (valid_chrom s) (chromosomes other)"
    and "length (chromosomes this) \<le> length sh"
    and "i \<le> length (chromosomes other)" and "length cs = i"
    and "list_all (valid_chrom s) cs"
    and "\<forall>j<i. sh ! j = Some (Chromosome_length s (cs ! j))"
  shows "\<forall>j<length cs'. sh' ! j = Some (Chromosome_length s' (cs' ! j))"
  using assms
proof (induction "length (chromosomes this) - i" arbitrary: i cs sh s)
  case 0
  then have "\<not> i < length (chromosomes this)" by simp
  with 0 show ?case by (simp add: spawn_loop_done)
next
  case (Suc n)
  then have i: "i < length (chromosomes this)" and n: "n = length (chromosomes this) - Suc i"
    by simp_all
  have ish: "i < length sh" using i Suc.prems(4) by simp
  show ?case
  proof (cases "i < length (chromosomes other)")
    case False
    note f = spawn_loop_facts [OF Suc.prems(1-3)]
    have m: "min (length (chromosomes this)) (length (chromosomes other)) - i = 0"
      using False by simp
    have cs': "cs' = cs" using f m by auto
    have p: "preserves s s'" using f by blast
    have "sh' ! j = Some (Chromosome_length s' (cs ! j))" if "j < i" for j
    proof -
      have "sh' ! j = sh ! j" using f Suc.prems(4) that ish by auto
      moreover have "valid_chrom s (cs ! j)" using Suc.prems(6,7) that by (simp add: list_all_length)
      ultimately show ?thesis
        using Suc.prems(8) that preserves_length [OF p] by simp
    qed
    then show ?thesis using cs' Suc.prems(6) by simp
  next
    case True
    define a b where "a = chromosomes this ! i" and "b = chromosomes other ! i"
    have va: "valid_chrom s a" and vb: "valid_chrom s b"
      using Suc.prems(2,3) i True by (simp_all add: a_def b_def list_all_length)
    obtain c s1 where sp: "Chromosome_spawnWith R a b s = (c, s1)"
      by (cases "Chromosome_spawnWith R a b s")
    obtain cc s2 where mu: "Chromosome_mutate R c (Some mp) (Some ap) s1 = Some (cc, s2)"
    proof (cases "Chromosome_mutate R c (Some mp) (Some ap) s1")
      case None
      with Suc.prems(1) show ?thesis
        using spawn_loop_diverge [OF i True sp [unfolded a_def b_def] None] by simp
    next
      case (Some r)
      with that show ?thesis by (cases r) auto
    qed
    note st = spawn_mutate_step [OF va vb sp mu]
    have rec: "Genome_spawn_loop R this other mp ap (Suc i)
                 (cs @ [cc], js_array_set sh i (Chromosome_length s2 cc), s2) = Some (cs', sh', s')"
      using Suc.prems(1) spawn_loop_step [OF i True sp [unfolded a_def b_def] mu] by simp
    have v2: "list_all (valid_chrom s2) (chromosomes this)" "list_all (valid_chrom s2) (chromosomes other)"
      using preserves_valid_all [OF st(2)] Suc.prems(2,3) by simp_all
    have len: "length (chromosomes this) \<le> length (js_array_set sh i (Chromosome_length s2 cc))"
      using Suc.prems(4) ish by (simp add: length_js_array_set)
    have vcs: "list_all (valid_chrom s2) (cs @ [cc])"
      using preserves_valid_all [OF st(2) Suc.prems(7)] st(3) by simp
    have sh: "\<forall>j<Suc i. js_array_set sh i (Chromosome_length s2 cc) ! j
                 = Some (Chromosome_length s2 ((cs @ [cc]) ! j))"
    proof (intro allI impI)
      fix j assume j: "j < Suc i"
      show "js_array_set sh i (Chromosome_length s2 cc) ! j = Some (Chromosome_length s2 ((cs @ [cc]) ! j))"
      proof (cases "j = i")
        case True
        then show ?thesis using ish Suc.prems(6) by (simp add: nth_js_array_set nth_append)
      next
        case False
        then have ji: "j < i" using j by simp
        have "valid_chrom s (cs ! j)" using Suc.prems(6,7) ji by (simp add: list_all_length)
        then have "Chromosome_length s2 (cs ! j) = Chromosome_length s (cs ! j)"
          using preserves_length [OF st(2)] by simp
        then show ?thesis
          using False ji ish Suc.prems(6,8) by (simp add: nth_js_array_set nth_append)
      qed
    qed
    show ?thesis
      using Suc.hyps(1) [OF n rec v2 len _ _ vcs sh] True Suc.prems(6) by simp
  qed
qed

lemma spawn_loop_lengths:
  assumes "Genome_spawn_loop R this other mp ap i (cs, sh, s) = Some (cs', sh', s')"
    and "list_all (valid_chrom s) (chromosomes this)"
    and "list_all (valid_chrom s) (chromosomes other)"
    and "i \<le> length (chromosomes other)" and "length cs = i"
    and "list_all (valid_chrom s) cs"
    and "\<forall>j<min (length (chromosomes this)) (length (chromosomes other)).
           max (Chromosome_length s (chromosomes this ! j)) (Chromosome_length s (chromosomes other ! j)) = m j"
    and "\<forall>j<i. Chromosome_length s (cs ! j) = m j \<or> Chromosome_length s (cs ! j) = Suc (m j)"
  shows "\<forall>j<length cs'. Chromosome_length s' (cs' ! j) = m j \<or> Chromosome_length s' (cs' ! j) = Suc (m j)"
  using assms
proof (induction "length (chromosomes this) - i" arbitrary: i cs sh s)
  case 0
  then have "\<not> i < length (chromosomes this)" by simp
  with 0 show ?case by (simp add: spawn_loop_done)
next
  case (Suc n)
  then have i: "i < length (chromosomes this)" and n: "n = length (chromosomes this) - Suc i"
    by simp_all
  show ?case
  proof (cases "i < length (chromosomes other)")
    case False
    note f = spawn_loop_facts [OF Suc.prems(1-3)]
    have m: "min (length (chromosomes this)) (length (chromosomes other)) - i = 0"
      using False by simp
    have cs': "cs' = cs" using f m by auto
    have p: "preserves s s'" using f by blast
    have "Chromosome_length s' (cs ! j) = Chromosome_length s (cs ! j)" if "j < i" for j
    proof -
      have "valid_chrom s (cs ! j)" using Suc.prems(5,6) that by (simp add: list_all_length)
      then show ?thesis using preserves_length [OF p] by simp
    qed
    then show ?thesis using cs' Suc.prems(5,8) by simp
  next
    case True
    define a b where "a = chromosomes this ! i" and "b = chromosomes other ! i"
    have va: "valid_chrom s a" and vb: "valid_chrom s b"
      using Suc.prems(2,3) i True by (simp_all add: a_def b_def list_all_length)
    obtain c s1 where sp: "Chromosome_spawnWith R a b s = (c, s1)"
      by (cases "Chromosome_spawnWith R a b s")
    obtain cc s2 where mu: "Chromosome_mutate R c (Some mp) (Some ap) s1 = Some (cc, s2)"
    proof (cases "Chromosome_mutate R c (Some mp) (Some ap) s1")
      case None
      with Suc.prems(1) show ?thesis
        using spawn_loop_diverge [OF i True sp [unfolded a_def b_def] None] by simp
    next
      case (Some r)
      with that show ?thesis by (cases r) auto
    qed
    note st = spawn_mutate_step [OF va vb sp mu]
    have rec: "Genome_spawn_loop R this other mp ap (Suc i)
                 (cs @ [cc], js_array_set sh i (Chromosome_length s2 cc), s2) = Some (cs', sh', s')"
      using Suc.prems(1) spawn_loop_step [OF i True sp [unfolded a_def b_def] mu] by simp
    have v2: "list_all (valid_chrom s2) (chromosomes this)" "list_all (valid_chrom s2) (chromosomes other)"
      using preserves_valid_all [OF st(2)] Suc.prems(2,3) by simp_all
    have vcs: "list_all (valid_chrom s2) (cs @ [cc])"
      using preserves_valid_all [OF st(2) Suc.prems(6)] st(3) by simp
    have l1: "Chromosome_length s1 c = m i"
      using Chromosome_spawnWith_length [OF va vb sp] Suc.prems(7) i True by (simp add: a_def b_def)
    obtain d nd where dom: "dominance s a b = (d, nd)" by (cases "dominance s a b")
    have vc: "valid_chrom s1 c" using Chromosome_spawnWith_child(2) [OF va vb dom sp] .
    note mt = Chromosome_mutate_mutated [OF vc mu]
    have lcc: "Chromosome_length s2 cc = m i \<or> Chromosome_length s2 cc = Suc (m i)"
      using mt l1 by (auto simp: mutated_def)
    have par: "\<forall>j<min (length (chromosomes this)) (length (chromosomes other)).
           max (Chromosome_length s2 (chromosomes this ! j)) (Chromosome_length s2 (chromosomes other ! j)) = m j"
    proof (intro allI impI)
      fix j assume j: "j < min (length (chromosomes this)) (length (chromosomes other))"
      then have "valid_chrom s (chromosomes this ! j)" "valid_chrom s (chromosomes other ! j)"
        using Suc.prems(2,3) by (simp_all add: list_all_length)
      then show "max (Chromosome_length s2 (chromosomes this ! j)) (Chromosome_length s2 (chromosomes other ! j)) = m j"
        using preserves_length [OF st(2)] Suc.prems(7) j by simp
    qed
    have old: "\<forall>j<Suc i. Chromosome_length s2 ((cs @ [cc]) ! j) = m j \<or>
                 Chromosome_length s2 ((cs @ [cc]) ! j) = Suc (m j)"
    proof (intro allI impI)
      fix j assume j: "j < Suc i"
      show "Chromosome_length s2 ((cs @ [cc]) ! j) = m j \<or> Chromosome_length s2 ((cs @ [cc]) ! j) = Suc (m j)"
      proof (cases "j = i")
        case True
        then show ?thesis using lcc Suc.prems(5) by (simp add: nth_append)
      next
        case False
        then have ji: "j < i" using j by simp
        have "valid_chrom s (cs ! j)" using Suc.prems(5,6) ji by (simp add: list_all_length)
        then have "Chromosome_length s2 (cs ! j) = Chromosome_length s (cs ! j)"
          using preserves_length [OF st(2)] by simp
        then show ?thesis using ji Suc.prems(5,8) by (simp add: nth_append)
      qed
    qed
    show ?thesis
      using Suc.hyps(1) [OF n rec v2 _ _ vcs par old] True Suc.prems(5) by simp
  qed
qed

lemma Genome_spawnWith_Some:
  "Genome_spawnWith R this other mp ap s = Some (child, s') \<longleftrightarrow>
   Genome_spawn_loop R this other (or_default mp mutation_probability)
     (or_default ap addition_probability) 0 ([], shape this, s)
     = Some (chromosomes child, shape child, s')"
  by (cases child) (auto simp: Genome_spawnWith_def Let_def split: option.splits prod.splits)

lemma Genome_spawnWith_returns:
  assumes "or_default mp mutation_probability = Num p" and "p \<le> 2 ^ 53"
  shows "\<exists>child s'. Genome_spawnWith R this other mp ap s = Some (child, s')"
proof -
  obtain cs sh s' where "Genome_spawn_loop R this other (Num p)
     (or_default ap addition_probability) 0 ([], shape this, s) = Some (cs, sh, s')"
    using spawn_loop_returns [OF assms(2), of R this other "or_default ap addition_probability" 0 "[]" "shape this" s]
    by (metis prod_cases3)
  then have "Genome_spawnWith R this other mp ap s = Some (\<lparr>chromosomes = cs, shape = sh\<rparr>, s')"
    by (simp add: Genome_spawnWith_Some assms(1))
  then show ?thesis by blast
qed

lemma Genome_spawnWith_facts:
  assumes "Genome_spawnWith R this other mp ap s = Some (child, s')"
    and "valid_genome s this" and "valid_genome s other"
  shows "preserves s s'"
    and "length (chromosomes child) = min (length (chromosomes this)) (length (chromosomes other))"
    and "list_all (\<lambda>c. \<not> valid_chrom s c \<and> valid_chrom s' c) (chromosomes child)"
    and "length (chromosomes this) \<le> length (shape this) \<Longrightarrow> length (shape child) = length (shape this)"
    and "length (chromosomes this) \<le> length (shape this) \<Longrightarrow> j < length (shape this) \<Longrightarrow>
         min (length (chromosomes this)) (length (chromosomes other)) \<le> j \<Longrightarrow>
         shape child ! j = shape this ! j"
proof -
  note f = spawn_loop_facts [OF assms(1) [unfolded Genome_spawnWith_Some]
      assms(2) [unfolded valid_genome_def] assms(3) [unfolded valid_genome_def]]
  show "preserves s s'" using f by blast
  show "length (chromosomes child) = min (length (chromosomes this)) (length (chromosomes other))"
    using f by simp
  show "list_all (\<lambda>c. \<not> valid_chrom s c \<and> valid_chrom s' c) (chromosomes child)"
    using f by auto
  show "length (shape child) = length (shape this)" if "length (chromosomes this) \<le> length (shape this)"
    using f that by blast
  show "shape child ! j = shape this ! j" if "length (chromosomes this) \<le> length (shape this)"
    "j < length (shape this)" "min (length (chromosomes this)) (length (chromosomes other)) \<le> j"
    using f that by blast
qed

lemma Genome_spawnWith_shape:
  assumes "Genome_spawnWith R g1 g2 mp ap s = Some (child, s')"
    and "valid_genome s g1" and "valid_genome s g2"
    and "length (chromosomes g1) \<le> length (shape g1)"
  shows "\<forall>j<length (chromosomes child).
           shape child ! j = Some (Chromosome_length s' (chromosomes child ! j))"
    and "length (shape child) = length (shape g1)"
proof -
  show "\<forall>j<length (chromosomes child).
           shape child ! j = Some (Chromosome_length s' (chromosomes child ! j))"
    using spawn_loop_shape [OF assms(1) [unfolded Genome_spawnWith_Some]
      assms(2) [unfolded valid_genome_def] assms(3) [unfolded valid_genome_def] assms(4)]
    by simp
  show "length (shape child) = length (shape g1)"
    using Genome_spawnWith_facts(4) [OF assms(1-3)] assms(4) by simp
qed

lemma Genome_spawnWith_well_shaped:
  assumes "Genome_spawnWith R g1 g2 mp ap s = Some (child, s')"
    and "valid_genome s g1" and "valid_genome s g2"
    and "length (shape g1) = length (chromosomes g1)"
    and "length (chromosomes g1) \<le> length (chromosomes g2)"
  shows "well_shaped s' child"
proof -
  have le: "length (chromosomes g1) \<le> length (shape g1)" using assms(4) by simp
  note f = Genome_spawnWith_shape [OF assms(1-3) le]
  have n: "length (chromosomes child) = length (chromosomes g1)"
    using Genome_spawnWith_facts(2) [OF assms(1-3)] assms(5) by simp
  show ?thesis
    unfolding well_shaped_def
    by (rule nth_equalityI) (use f n assms(4) in simp_all)
qed

lemma Genome_spawnWith_lengths:
  assumes "Genome_spawnWith R g1 g2 mp ap s = Some (child, s')"
    and "valid_genome s g1" and "valid_genome s g2"
    and "j < length (chromosomes child)"
  shows "Chromosome_length s' (chromosomes child ! j) =
           max (Chromosome_length s (chromosomes g1 ! j)) (Chromosome_length s (chromosomes g2 ! j)) \<or>
         Chromosome_length s' (chromosomes child ! j) =
           Suc (max (Chromosome_length s (chromosomes g1 ! j)) (Chromosome_length s (chromosomes g2 ! j)))"
  using spawn_loop_lengths [OF assms(1) [unfolded Genome_spawnWith_Some]
      assms(2) [unfolded valid_genome_def] assms(3) [unfolded valid_genome_def],
      of "\<lambda>j. max (Chromosome_length s (chromosomes g1 ! j)) (Chromosome_length s (chromosomes g2 ! j))"]
    assms(4)
  by simp

lemma default_prob: "or_default None mutation_probability = Num (1 / 100)" "(1 / 100 :: real) \<le> 2 ^ 53"
  by (simp_all add: or_default_def mutation_probability_def)

lemma preserves_map_genes:
  "preserves s t \<Longrightarrow> list_all (valid_chrom s) cs \<Longrightarrow> map (genes t) cs = map (genes s) cs"
  by (auto simp: list_all_iff preserves_genes)

lemma dominance_genes:
  assumes "dominance s a b = (d, nd)"
  shows "(if length (genes s b) > length (genes s a) then (genes s b, genes s a) else (genes s a, genes s b))
         = (genes s d, genes s nd)"
  using assms by (auto simp: dominance_def Chromosome_length_def split: if_splits)

lemma spawn_loop_genes:
  assumes "Genome_spawn_loop R this other (Num p0) ap i (cs, sh, s) = Some (cs', sh', s')"
    and "p0 \<le> 2 ^ 53"
    and "list_all (valid_chrom s) (chromosomes this)"
    and "list_all (valid_chrom s) (chromosomes other)"
    and "list_all (valid_chrom s) cs"
  shows "map (genes s') cs' =
         map (genes s) cs @
         spawn_genes R p0 ap
           (drop i (zip (map (genes s) (chromosomes this)) (map (genes s) (chromosomes other))))
           (draws s)"
  using assms
proof (induction "length (chromosomes this) - i" arbitrary: i cs sh s)
  case 0
  then have "\<not> i < length (chromosomes this)" by simp
  with 0 show ?case by (simp add: spawn_loop_done)
next
  case (Suc n)
  then have i: "i < length (chromosomes this)" and n: "n = length (chromosomes this) - Suc i"
    by simp_all
  define zs where "zs = zip (map (genes s) (chromosomes this)) (map (genes s) (chromosomes other))"
  show ?case
  proof (cases "i < length (chromosomes other)")
    case False
    with i Suc.prems(1) have "Genome_spawn_loop R this other (Num p0) ap (Suc i) (cs, sh, s) = Some (cs', sh', s')"
      by (simp add: spawn_loop_skip)
    from Suc.hyps(1) [OF n this Suc.prems(2-5)] False show ?thesis by simp
  next
    case True
    define a b where "a = chromosomes this ! i" and "b = chromosomes other ! i"
    have va: "valid_chrom s a" and vb: "valid_chrom s b"
      using Suc.prems(3,4) i True by (simp_all add: a_def b_def list_all_length)
    obtain c s1 where sp: "Chromosome_spawnWith R a b s = (c, s1)"
      by (cases "Chromosome_spawnWith R a b s")
    obtain cc s2 where mu: "Chromosome_mutate R c (Some (Num p0)) (Some ap) s1 = Some (cc, s2)"
    proof (cases "Chromosome_mutate R c (Some (Num p0)) (Some ap) s1")
      case None
      with Suc.prems(1) show ?thesis
        using spawn_loop_diverge [OF i True sp [unfolded a_def b_def] None] by simp
    next
      case (Some r)
      with that show ?thesis by (cases r) auto
    qed
    note st = spawn_mutate_step [OF va vb sp mu]
    obtain d nd where dom: "dominance s a b = (d, nd)" by (cases "dominance s a b")
    note ch = Chromosome_spawnWith_child [OF va vb dom sp]
    note mt = Chromosome_mutate_mutated [OF ch(2) mu]
    have gp: "(genes s2 cc, draws s2) =
        mutate_genes R p0 ap (crossover R (draws s) (genes s d) (genes s nd), draws s + length (genes s nd))"
      using Chromosome_mutate_genes [OF ch(2) Suc.prems(2) mu] mt(1) by (simp add: ch(3,5))
    have rec: "Genome_spawn_loop R this other (Num p0) ap (Suc i)
                 (cs @ [cc], js_array_set sh i (Chromosome_length s2 cc), s2) = Some (cs', sh', s')"
      using Suc.prems(1) spawn_loop_step [OF i True sp [unfolded a_def b_def] mu] by simp
    have v2: "list_all (valid_chrom s2) (chromosomes this)" "list_all (valid_chrom s2) (chromosomes other)"
      using preserves_valid_all [OF st(2)] Suc.prems(3,4) by simp_all
    have vcs: "list_all (valid_chrom s2) (cs @ [cc])"
      using preserves_valid_all [OF st(2) Suc.prems(5)] st(3) by simp
    have m: "map (genes s2) (chromosomes this) = map (genes s) (chromosomes this)"
      "map (genes s2) (chromosomes other) = map (genes s) (chromosomes other)"
      "map (genes s2) cs = map (genes s) cs"
      using preserves_map_genes [OF st(2)] Suc.prems(3-5) by simp_all
    have IH: "map (genes s') cs' = (map (genes s) cs @ [genes s2 cc]) @
         spawn_genes R p0 ap (drop (Suc i) zs) (draws s2)"
      using Suc.hyps(1) [OF n rec Suc.prems(2) v2 vcs] by (simp add: m zs_def)
    have iz: "i < length zs" using i True by (simp add: zs_def)
    have zi: "zs ! i = (genes s a, genes s b)" using i True by (simp add: zs_def a_def b_def)
    have dr: "drop i zs = (genes s a, genes s b) # drop (Suc i) zs"
      using iz zi by (simp add: Cons_nth_drop_Suc [symmetric])
    have "spawn_genes R p0 ap (drop i zs) (draws s) =
          genes s2 cc # spawn_genes R p0 ap (drop (Suc i) zs) (draws s2)"
      unfolding dr spawn_genes.simps dominance_genes [OF dom] Let_def prod.case gp [symmetric] ..
    then show ?thesis using IH by (simp add: zs_def)
  qed
qed

lemma Genome_spawnWith_genes:
  assumes "valid_genome s g1" and "valid_genome s g2"
    and "or_default mp mutation_probability = Num p0" and "p0 \<le> 2 ^ 53"
  shows "\<exists>child s'. Genome_spawnWith R g1 g2 mp ap s = Some (child, s') \<and>
           map (genes s') (chromosomes child) =
             spawn_genes R p0 (or_default ap addition_probability)
               (zip (map (genes s) (chromosomes g1)) (map (genes s) (chromosomes g2))) (draws s)"
proof -
  obtain child s' where r: "Genome_spawnWith R g1 g2 mp ap s = Some (child, s')"
    using Genome_spawnWith_returns [OF assms(3,4)] by blast
  have "map (genes s') (chromosomes child) =
             spawn_genes R p0 (or_default ap addition_probability)
               (zip (map (genes s) (chromosomes g1)) (map (genes s) (chromosomes g2))) (draws s)"
    using spawn_loop_genes [OF r [unfolded Genome_spawnWith_Some assms(3)] assms(4)
        assms(1) [unfolded valid_genome_def] assms(2) [unfolded valid_genome_def]]
    by simp
  with r show ?thesis by blast
qed

text \<open>
  Claim C5. Whenever \<open>g1.spawnWith(g2)\<close> returns, the child has exactly as many chromosomes as
  the smaller of the two chromosome counts. Each of them is a Chromosome created by the call
  (none of the receiver's is copied through), and the one at index \<open>j\<close> has the length of the
  longer of the two parents' chromosomes at \<open>j\<close>, or one more. With a finite mutation
  probability of at most \<open>2^53\<close> the call returns, and the genes of the children are those of
  \<open>spawn_genes\<close> on the pairs of the parents' chromosomes at the indices present in both: the
  crossover of the pair, with the bits flipped and the gene added that \<open>mutate\<close> flips and
  adds, the draws taken in that order.
\<close>

theorem Genome_spawnWith_chromosome_count:
  assumes "valid_genome s g1" and "valid_genome s g2"
  shows "(\<forall>child s'. Genome_spawnWith R g1 g2 mp ap s = Some (child, s') \<longrightarrow>
            length (chromosomes child) = min (length (chromosomes g1)) (length (chromosomes g2)) \<and>
            list_all (\<lambda>c. \<not> valid_chrom s c \<and> valid_chrom s' c) (chromosomes child) \<and>
            (\<forall>j<length (chromosomes child).
               Chromosome_length s' (chromosomes child ! j) =
                 max (Chromosome_length s (chromosomes g1 ! j)) (Chromosome_length s (chromosomes g2 ! j)) \<or>
               Chromosome_length s' (chromosomes child ! j) =
                 Suc (max (Chromosome_length s (chromosomes g1 ! j)) (Chromosome_length s (chromosomes g2 ! j))))) \<and>
         (\<forall>p. or_default mp mutation_probability = Num p \<and> p \<le> 2 ^ 53 \<longrightarrow>
            (\<exists>child s'. Genome_spawnWith R g1 g2 mp ap s = Some (child, s') \<and>
               map (genes s') (chromosomes child) =
                 spawn_genes R p (or_default ap addition_probability)
                   (zip (map (genes s) (chromosomes g1)) (map (genes s) (chromosomes g2))) (draws s)))"
proof (intro conjI allI impI)
  fix child s' assume r: "Genome_spawnWith R g1 g2 mp ap s = Some (child, s')"
  show "length (chromosomes child) = min (length (chromosomes g1)) (length (chromosomes g2))"
    using Genome_spawnWith_facts(2) [OF r assms] .
  show "list_all (\<lambda>c. \<not> valid_chrom s c \<and> valid_chrom s' c) (chromosomes child)"
    using Genome_spawnWith_facts(3) [OF r assms] .
  fix j assume "j < length (chromosomes child)"
  then show "Chromosome_length s' (chromosomes child ! j) =
                 max (Chromosome_length s (chromosomes g1 ! j)) (Chromosome_length s (chromosomes g2 ! j)) \<or>
               Chromosome_length s' (chromosomes child ! j) =
                 Suc (max (Chromosome_length s (chromosomes g1 ! j)) (Chromosome_length s (chromosomes g2 ! j)))"
    using Genome_spawnWith_lengths [OF r assms] by simp
next
  fix p assume "or_default mp mutation_probability = Num p \<and> p \<le> 2 ^ 53"
  then show "\<exists>child s'. Genome_spawnWith R g1 g2 mp ap s = Some (child, s') \<and>
               map (genes s') (chromosomes child) =
                 spawn_genes R p (or_default ap addition_probability)
                   (zip (map (genes s) (chromosomes g1)) (map (genes s) (chromosomes g2))) (draws s)"
    using Genome_spawnWith_genes [OF assms] by blast
qed

lemma spawn_genes_example:
  "spawn_genes (\<lambda>_. 3 / 4) 1 (Num (1 / 1000)) [([5], [6, 7])] 0 = [[5, 16777223]]"
proof -
  have c: "crossover (\<lambda>_. 3 / 4) 0 [6, 7] [5] = [5, 7]"
    by (simp add: crossover_def upt_conv_Cons)
  have d: "double (3 / 4 * real (length [5, 7 :: gene])) = 3 / 2" "double (3 / 4 * 32) = 24"
    using double_three_halves double_of_nat [of 24] by simp_all
  have f: "\<lfloor>3 / 2 :: real\<rfloor> = 1" by linarith
  have a: "attempt_genes (\<lambda>_. 3 / 4) (Num 1) ([5, 7], Suc 0) = ([5, 16777223], 4)"
    unfolding attempt_genes_def prod.case d by (simp add: flip_gene_def f)
  have m: "mutate_genes (\<lambda>_. 3 / 4) 1 (Num (1 / 1000)) ([5, 7], Suc 0) = ([5, 16777223], 5)"
    by (simp add: mutate_genes_def attempts_def attempt_prob_def a add_genes_def)
  show ?thesis by (simp add: c m)
qed

theorem Genome_spawnWith_chromosome_count_witness:
  "valid_genome heap3 genomeA \<and> valid_genome heap3 genomeB \<and>
   (\<exists>child s'. Genome_spawnWith (\<lambda>_. 3 / 4) genomeA genomeB (Some (Num 1)) None heap3 = Some (child, s') \<and>
      length (chromosomes child) = 1 \<and>
      map (genes s') (chromosomes child) = [[5, 16777223]])"
proof -
  note t = Genome_spawnWith_chromosome_count [OF heap3_valid, of "\<lambda>_. 3 / 4" "Some (Num 1)" None]
  have p: "or_default (Some (Num 1)) mutation_probability = Num 1 \<and> (1 :: real) \<le> 2 ^ 53"
    by (simp add: or_default_def)
  have z: "zip (map (genes heap3) (chromosomes genomeA)) (map (genes heap3) (chromosomes genomeB))
           = [([5], [6, 7])]"
    using heap3_facts by (simp add: genomeA_def genomeB_def)
  have ap: "or_default None addition_probability = Num (1 / 1000)"
    by (simp add: or_default_def addition_probability_def)
  have dr: "draws heap3 = 0" by (simp add: heap3_def)
  from t p obtain child s' where
    1: "Genome_spawnWith (\<lambda>_. 3 / 4) genomeA genomeB (Some (Num 1)) None heap3 = Some (child, s')"
    and 2: "map (genes s') (chromosomes child) =
                 spawn_genes (\<lambda>_. 3 / 4) 1 (or_default None addition_probability)
                   (zip (map (genes heap3) (chromosomes genomeA)) (map (genes heap3) (chromosomes genomeB)))
                   (draws heap3)"
    by blast
  have g: "map (genes s') (chromosomes child) = [[5, 16777223]]"
    using 2 unfolding z ap dr spawn_genes_example .
  from t 1 have "length (chromosomes child) = min (length (chromosomes genomeA)) (length (chromosomes genomeB))"
    by blast
  then have "length (chromosomes child) = 1" by (simp add: genomeA_def genomeB_def)
  with 1 g heap3_valid show ?thesis by auto
qed

text \<open>
  Claim C3 says that the shape of the child of \<open>g1.spawnWith(g2)\<close> has one entry per chromosome
  of the child, also when \<open>g1\<close> has more chromosomes than \<open>g2\<close>. The program on
  \<open>g1 = new Genome([1, 1])\<close> and \<open>g2 = new Genome([2])\<close>, with every \<open>Math.random()\<close> returning
  0.5 and the default probabilities: the child has one chromosome and a shape of two entries,
  the second one the length 1 of the receiver's second chromosome.
\<close>

theorem Genome_spawnWith_shape_mismatch:
  "\<exists>g1 s1 g2 s2 child s3.
     Genome_new (\<lambda>_. 1 / 2) [1, 1] heap0 = (g1, s1) \<and>
     Genome_new (\<lambda>_. 1 / 2) [2] s1 = (g2, s2) \<and>
     Genome_spawnWith (\<lambda>_. 1 / 2) g1 g2 None None s2 = Some (child, s3) \<and>
     length (chromosomes child) = 1 \<and> length (shape child) = 2 \<and> shape child ! 1 = Some 1"
proof -
  obtain g1 s1 where 1: "Genome_new (\<lambda>_. 1 / 2) [1, 1] heap0 = (g1, s1)"
    by (cases "Genome_new (\<lambda>_. 1 / 2) [1, 1] heap0")
  obtain g2 s2 where 2: "Genome_new (\<lambda>_. 1 / 2) [2] s1 = (g2, s2)"
    by (cases "Genome_new (\<lambda>_. 1 / 2) [2] s1")
  obtain child s3 where 3: "Genome_spawnWith (\<lambda>_. 1 / 2) g1 g2 None None s2 = Some (child, s3)"
    using Genome_spawnWith_returns [OF default_prob] by blast
  have v1: "valid_genome s2 g1"
    using Genome_new_well_shaped(2) [OF 1] Genome_new_well_shaped(3) [OF 2]
    by (rule preserves_valid_genome [rotated])
  have v2: "valid_genome s2 g2" using Genome_new_well_shaped(2) [OF 2] .
  have sh: "shape g1 = [Some 1, Some 1]" and n1: "length (chromosomes g1) = 2"
    using Genome_new_shape [OF 1] by simp_all
  have n2: "length (chromosomes g2) = 1" using Genome_new_shape(2) [OF 2] by simp
  note f = Genome_spawnWith_facts [OF 3 v1 v2]
  have c: "length (chromosomes child) = 1" using f(2) by (simp add: n1 n2)
  have s: "length (shape child) = 2" using f(4) by (simp add: n1 sh)
  have "shape child ! 1 = shape g1 ! 1"
    by (rule f(5)) (simp_all add: n1 n2 sh)
  then have "shape child ! 1 = Some 1" by (simp add: sh)
  with 1 2 3 c s show ?thesis by blast
qed

section \<open>Properties of Genome.diversityWith, and the division of both diversityWith\<close>

lemma Genome_diversityWith_unfold:
  "Genome_diversityWith this other s =
     (let shorter = (if length (chromosomes this) < length (chromosomes other)
                     then chromosomes this else chromosomes other);
          longer = (if length (chromosomes this) < length (chromosomes other)
                     then chromosomes other else chromosomes this);
          r = for_loop 0 (length shorter) (diversity_step shorter longer) (Num 0, s)
      in (js_div (fst r) (Num (real (length shorter))), snd r))"
  by (simp add: Genome_diversityWith_def diversity_step_def Let_def case_prod_beta)

lemma diversity_loop:
  assumes sh: "list_all (valid_chrom s) shorter" and lo: "list_all (valid_chrom s) longer"
    and le: "length shorter \<le> length longer"
  shows "preserves s (snd (for_loop 0 (length shorter) (diversity_step shorter longer) (Num 0, s)))"
    and "(\<forall>i<length shorter. genes s (shorter ! i) \<noteq> [] \<or> genes s (longer ! i) \<noteq> []) \<Longrightarrow>
         \<exists>x. fst (for_loop 0 (length shorter) (diversity_step shorter longer) (Num 0, s)) = Num x \<and>
             0 \<le> x \<and> x \<le> real (length shorter)"
proof -
  define P where "P k st \<longleftrightarrow> preserves s (snd st) \<and>
      ((\<forall>i<length shorter. genes s (shorter ! i) \<noteq> [] \<or> genes s (longer ! i) \<noteq> []) \<longrightarrow>
       (\<exists>x. fst st = Num x \<and> 0 \<le> x \<and> x \<le> real k))" for k and st :: "number \<times> heap"
  have "P (length shorter) (for_loop 0 (length shorter) (diversity_step shorter longer) (Num 0, s))"
  proof (rule for_loop_invariant)
    show "P 0 (Num 0, s)" by (simp add: P_def preserves_refl)
    show "0 \<le> length shorter" by simp
    fix k st assume k: "k < length shorter" and Pk: "P k st"
    obtain tot t where st: "st = (tot, t)" by (cases st)
    have pt: "preserves s t" using Pk by (simp add: P_def st)
    have va: "valid_chrom s (shorter ! k)" and vb: "valid_chrom s (longer ! k)"
      using sh lo le k by (simp_all add: list_all_length)
    have vta: "valid_chrom t (shorter ! k)" and vtb: "valid_chrom t (longer ! k)"
      using preserves_valid [OF pt] va vb by simp_all
    obtain d t1 where dv: "Chromosome_diversityWith (shorter ! k) (longer ! k) t = (d, t1)"
      by (cases "Chromosome_diversityWith (shorter ! k) (longer ! k) t")
    have step: "diversity_step shorter longer k st = (js_add tot d, t1)"
      by (simp add: diversity_step_def st dv)
    have p1: "preserves s t1"
      using Chromosome_diversityWith_preserves [OF vta vtb] pt dv
      by (auto intro: preserves_trans)
    have val: "\<exists>x. js_add tot d = Num x \<and> 0 \<le> x \<and> x \<le> real (Suc k)"
      if ne: "\<forall>i<length shorter. genes s (shorter ! i) \<noteq> [] \<or> genes s (longer ! i) \<noteq> []"
    proof -
      obtain x where x: "tot = Num x" "0 \<le> x" "x \<le> real k"
        using Pk ne by (auto simp: P_def st)
      have "genes t (shorter ! k) \<noteq> [] \<or> genes t (longer ! k) \<noteq> []"
        using ne k preserves_genes [OF pt va] preserves_genes [OF pt vb] by simp
      from Chromosome_diversityWith_unit [OF vta vtb this]
      obtain y where y: "d = Num y" "0 \<le> y" "y \<le> 1" using dv by auto
      show ?thesis using x y by simp
    qed
    show "P (Suc k) (diversity_step shorter longer k st)"
      unfolding P_def step using p1 val by simp
  qed
  then show "preserves s (snd (for_loop 0 (length shorter) (diversity_step shorter longer) (Num 0, s)))"
    and "(\<forall>i<length shorter. genes s (shorter ! i) \<noteq> [] \<or> genes s (longer ! i) \<noteq> []) \<Longrightarrow>
         \<exists>x. fst (for_loop 0 (length shorter) (diversity_step shorter longer) (Num 0, s)) = Num x \<and>
             0 \<le> x \<and> x \<le> real (length shorter)"
    by (simp_all add: P_def)
qed

lemma Genome_diversityWith_preserves:
  assumes "valid_genome s g1" and "valid_genome s g2"
  shows "preserves s (snd (Genome_diversityWith g1 g2 s))"
proof (cases "length (chromosomes g1) < length (chromosomes g2)")
  case True
  then show ?thesis
    using diversity_loop(1) [of s "chromosomes g1" "chromosomes g2"] assms
    by (simp add: Genome_diversityWith_unfold valid_genome_def Let_def)
next
  case False
  then show ?thesis
    using diversity_loop(1) [of s "chromosomes g2" "chromosomes g1"] assms
    by (simp add: Genome_diversityWith_unfold valid_genome_def Let_def)
qed

lemma Genome_diversityWith_unit:
  assumes "valid_genome s g1" and "valid_genome s g2"
    and pos: "0 < min (length (chromosomes g1)) (length (chromosomes g2))"
    and ne: "\<forall>i<min (length (chromosomes g1)) (length (chromosomes g2)).
           genes s (chromosomes g1 ! i) \<noteq> [] \<or> genes s (chromosomes g2 ! i) \<noteq> []"
  shows "\<exists>d. fst (Genome_diversityWith g1 g2 s) = Num d \<and> 0 \<le> d \<and> d \<le> 1"
proof -
  define shorter longer where
    "shorter = (if length (chromosomes g1) < length (chromosomes g2) then chromosomes g1 else chromosomes g2)"
    and "longer = (if length (chromosomes g1) < length (chromosomes g2) then chromosomes g2 else chromosomes g1)"
  have v: "list_all (valid_chrom s) shorter" "list_all (valid_chrom s) longer"
    using assms(1,2) by (simp_all add: shorter_def longer_def valid_genome_def)
  have le: "length shorter \<le> length longer" by (simp add: shorter_def longer_def)
  have n: "length shorter = min (length (chromosomes g1)) (length (chromosomes g2))"
    by (simp add: shorter_def)
  have "\<forall>i<length shorter. genes s (shorter ! i) \<noteq> [] \<or> genes s (longer ! i) \<noteq> []"
    using ne unfolding n by (auto simp: shorter_def longer_def)
  from diversity_loop(2) [OF v le this]
  obtain x where x: "fst (for_loop 0 (length shorter) (diversity_step shorter longer) (Num 0, s)) = Num x"
    "0 \<le> x" "x \<le> real (length shorter)" by blast
  have l: "0 < real (length shorter)" using pos n by simp
  have "fst (Genome_diversityWith g1 g2 s) = Num (x / real (length shorter))"
    using l unfolding Genome_diversityWith_unfold shorter_def [symmetric] longer_def [symmetric]
    by (simp add: Let_def x(1))
  moreover have "0 \<le> x / real (length shorter)" using x(2) by simp
  moreover have "x / real (length shorter) \<le> 1" using x(3) l by (simp add: divide_le_eq_1)
  ultimately show ?thesis by blast
qed

lemma Genome_diversityWith_empty: "fst (Genome_diversityWith genomeE genomeE s) = NaN"
  by (simp add: Genome_diversityWith_unfold genomeE_def for_loop_empty Let_def)

text \<open>
  Claim C2 says that \<open>diversityWith\<close> signals an error when both chromosomes have no gene, and
  when both genomes have no chromosome. The program on \<open>a = new Chromosome(0)\<close> and
  \<open>b = new Chromosome(0)\<close>, and on two \<open>new Genome([])\<close>: \<open>a.diversityWith(b)\<close> divides 0 by 0
  and returns NaN, and so does the \<open>diversityWith\<close> of the two genomes; nothing guards the
  division and nothing is signalled.
\<close>

theorem diversityWith_zero_denominator:
  "Chromosome_new R 0 heap0 = (0, heapN) \<and> Chromosome_new R 0 heapN = (1, heapN2) \<and>
   Chromosome_length heapN2 0 = 0 \<and> Chromosome_length heapN2 1 = 0 \<and>
   fst (Chromosome_diversityWith 0 1 heapN2) = NaN \<and>
   Genome_new R [] heapN2 = (genomeE, heapN2) \<and>
   fst (Genome_diversityWith genomeE genomeE heapN2) = NaN"
proof -
  have "Chromosome_new R 0 heapN = (1, heapN2)"
    by (auto simp: Chromosome_new_eq heapN_def heapN2_def)
  moreover have "Genome_new R [] heapN2 = (genomeE, heapN2)"
    by (simp add: Genome_new_def genomeE_def)
  ultimately show ?thesis
    using heapN_new heapN2_facts Chromosome_diversityWith_empty [OF heapN2_facts]
      Genome_diversityWith_empty
    by (simp add: Chromosome_length_def)
qed

section \<open>The operands are left as they are\<close>

text \<open>
  Claim C9. The genes of every Chromosome that exists before the call, the operands and the
  chromosomes of both parent genomes among them, are the same after \<open>Chromosome.spawnWith\<close>,
  \<open>Chromosome.diversityWith\<close>, \<open>Genome.diversityWith\<close> and \<open>Genome.spawnWith\<close>; the chromosomes
  of the child of \<open>Genome.spawnWith\<close>, the only ones that are mutated, are none of them.
  \<open>Genome.spawnWith\<close> returns whenever the mutation probability is a finite number of at most
  \<open>2^53\<close>.
\<close>

theorem operands_unchanged:
  assumes "valid_chrom s a" and "valid_chrom s b"
    and "valid_genome s g1" and "valid_genome s g2"
    and "valid_chrom s c"
  shows "genes (snd (Chromosome_spawnWith R a b s)) c = genes s c \<and>
         genes (snd (Chromosome_diversityWith a b s)) c = genes s c \<and>
         genes (snd (Genome_diversityWith g1 g2 s)) c = genes s c \<and>
         (\<forall>child s'. Genome_spawnWith R g1 g2 mp ap s = Some (child, s') \<longrightarrow>
            genes s' c = genes s c \<and> list_all (\<lambda>k. k \<noteq> c) (chromosomes child)) \<and>
         (\<forall>p. or_default mp mutation_probability = Num p \<and> p \<le> 2 ^ 53 \<longrightarrow>
            (\<exists>child s'. Genome_spawnWith R g1 g2 mp ap s = Some (child, s')))"
proof -
  have 1: "genes (snd (Chromosome_spawnWith R a b s)) c = genes s c"
    using preserves_genes [OF Chromosome_spawnWith_preserves [OF assms(1,2)] assms(5)] .
  have 2: "genes (snd (Chromosome_diversityWith a b s)) c = genes s c"
    using preserves_genes [OF Chromosome_diversityWith_preserves [OF assms(1,2)] assms(5)] .
  have 3: "genes (snd (Genome_diversityWith g1 g2 s)) c = genes s c"
    using preserves_genes [OF Genome_diversityWith_preserves [OF assms(3,4)] assms(5)] .
  have 4: "genes s' c = genes s c \<and> list_all (\<lambda>k. k \<noteq> c) (chromosomes child)"
    if "Genome_spawnWith R g1 g2 mp ap s = Some (child, s')" for child s'
  proof -
    note f = Genome_spawnWith_facts(1,3) [OF that assms(3,4)]
    have "genes s' c = genes s c" using preserves_genes [OF f(1) assms(5)] .
    moreover have "list_all (\<lambda>k. k \<noteq> c) (chromosomes child)"
      using f(2) assms(5) by (auto simp: list_all_iff)
    ultimately show ?thesis ..
  qed
  show ?thesis using 1 2 3 4 Genome_spawnWith_returns by blast
qed

theorem operands_unchanged_witness:
  "valid_chrom heap3 0 \<and> valid_chrom heap3 2 \<and> valid_genome heap3 genomeA \<and> valid_genome heap3 genomeB \<and>
   genes (snd (Chromosome_spawnWith (\<lambda>_. 3 / 4) 0 2 heap3)) 0 = [5] \<and>
   genes (snd (Chromosome_diversityWith 0 2 heap3)) 0 = [5] \<and>
   genes (snd (Genome_diversityWith genomeA genomeB heap3)) 0 = [5] \<and>
   (\<exists>child s'. Genome_spawnWith (\<lambda>_. 3 / 4) genomeA genomeB (Some (Num 3)) None heap3 = Some (child, s') \<and>
      genes s' 0 = [5])"
proof -
  note t = operands_unchanged [OF heap3_facts(1,3) heap3_valid heap3_facts(1),
      of "\<lambda>_. 3 / 4" "Some (Num 3)" None, unfolded heap3_facts]
  have "or_default (Some (Num 3)) mutation_probability = Num 3 \<and> (3 :: real) \<le> 2 ^ 53"
    by (simp add: or_default_def)
  with t obtain child s' where
    1: "Genome_spawnWith (\<lambda>_. 3 / 4) genomeA genomeB (Some (Num 3)) None heap3 = Some (child, s')"
    by blast
  with t have "genes s' 0 = [5]" by blast
  with 1 t heap3_facts(1,3) heap3_valid show ?thesis by blast
qed

end
